theory Spec2Isabelle
  imports Main "HOL-Library.Sublist"
begin

section \<open>The thread pool of \<^verbatim>\<open>src/sdk/cbthreadpool.cpp\<close>\<close>

text \<open>
  The pool (\<^verbatim>\<open>cbThreadPool\<close>) owns a queue of task elements and a set of worker
  threads (\<^verbatim>\<open>PrivateThread\<close>). The embedding keeps the fields of both classes
  under their own names. Objects allocated with \<^verbatim>\<open>new PrivateThread\<close> live in an
  arena (\<open>heap\<close>); a pointer to a worker is its index there, and the pool's array
  \<^verbatim>\<open>m_Threads\<close> is a list of such pointers. Nothing in the file ever deletes a
  worker object, so the arena only grows.

  A task pointer (\<^verbatim>\<open>cbThreadPoolTask*\<close>) is \<open>Some t\<close> for the task object \<open>t\<close> and
  \<open>None\<close> for the null pointer. The tasks themselves are opaque: what the pool does
  to them (\<^verbatim>\<open>Execute()\<close>, \<^verbatim>\<open>Abort()\<close>, \<^verbatim>\<open>delete\<close>) is recorded in three logs.
\<close>

subsection \<open>Data\<close>

type_synonym task_ptr = "nat option"

type_synonym thread_ptr = "nat option"

record cbTaskElement =
  task :: task_ptr
  autoDelete :: bool

text \<open>
  The life cycle of a \<^verbatim>\<open>wxThread\<close>: constructed, created (\<^verbatim>\<open>Create()\<close>), started
  (\<^verbatim>\<open>Run()\<close>), and then either finished (\<^verbatim>\<open>Entry()\<close> returned) or killed
  (\<^verbatim>\<open>Kill()\<close>).
\<close>

datatype wxThreadState = STATE_NEW | STATE_CREATED | STATE_RUNNING | STATE_EXITED | STATE_KILLED

text \<open>
  The places of \<^verbatim>\<open>PrivateThread::Entry()\<close> between which another thread can
  observe the worker. Each is named after the statement that runs next:
  \<^item> \<open>LoopHead\<close>: the test \<^verbatim>\<open>while(!Aborted())\<close> (line 59);
  \<^item> \<open>ClearTask\<close>: \<^verbatim>\<open>m_pTask = 0\<close> inside the counter lock (lines 61-63);
  \<^item> \<open>Check1\<close>, \<open>Check2\<close>: the two \<^verbatim>\<open>if (Aborted()) break;\<close> (lines 64, 68);
  \<^item> \<open>Fetch\<close>: \<^verbatim>\<open>GetNextElement(elem); if (!elem.task) break;\<close> (lines 75-78);
  \<^item> \<open>MarkBusy\<close>: \<^verbatim>\<open>++m_Counter; m_pTask = elem.task\<close> inside the counter lock
    (lines 80-83);
  \<^item> \<open>Launch\<close>: \<^verbatim>\<open>if (!Aborted())\<close> and the call of \<^verbatim>\<open>Execute()\<close> (lines 85-86);
  \<^item> \<open>InExecute\<close>: \<^verbatim>\<open>Execute()\<close> is running and has not returned;
  \<^item> \<open>MarkIdle\<close>: \<^verbatim>\<open>m_pTask = 0; --m_Counter\<close> inside the counter lock
    (lines 90-93);
  \<^item> \<open>Dispose\<close>: \<^verbatim>\<open>if (elem.autoDelete) delete elem.task;\<close> (lines 94-95);
  \<^item> \<open>Notify\<close>: \<^verbatim>\<open>m_pPool->OnThreadTaskDone(this)\<close> (lines 97-101);
  \<^item> \<open>Returned\<close>: \<^verbatim>\<open>return 0\<close> (line 103) has been executed.
\<close>

datatype loc =
  LoopHead | ClearTask | Check1 | Check2 | Fetch | MarkBusy | Launch | InExecute
  | MarkIdle | Dispose | Notify | Returned

text \<open>The two states the class names for a worker (\<^verbatim>\<open>enum State\<close>, lines 20-24).\<close>

datatype State = Idle | Busy

text \<open>
  A worker object: the fields \<^verbatim>\<open>m_pTask\<close> and \<^verbatim>\<open>m_Abort\<close> of the class, the
  state of the underlying \<^verbatim>\<open>wxThread\<close>, whether \<^verbatim>\<open>wxThread::Delete()\<close> has been
  requested (what \<^verbatim>\<open>TestDestroy()\<close> reports), and the control state of \<^verbatim>\<open>Entry()\<close>:
  its place and its local variable \<^verbatim>\<open>elem\<close>. The field \<^verbatim>\<open>m_pPool\<close> is left out:
  there is one pool.
\<close>

record PrivateThread =
  m_pTask :: task_ptr
  m_Abort :: bool
  wx_state :: wxThreadState
  wx_destroy :: bool
  pc :: loc
  elem :: cbTaskElement

text \<open>The two events the pool posts to its owner, each tagged with the pool's id.\<close>

datatype CodeBlocksEvent = cbEVT_THREADTASK_ENDED int | cbEVT_THREADTASK_ALLDONE int

text \<open>
  The pool: the fields of the class, the arena of worker objects, and the
  observable effects on the world outside the pool:
  \<^item> \<open>posted\<close>: the events handed to \<^verbatim>\<open>wxPostEvent(m_pOwner, ...)\<close>, in order;
  \<^item> \<open>executed\<close>, \<open>aborted\<close>, \<open>deleted\<close>: the tasks on which \<^verbatim>\<open>Execute()\<close> and
    \<^verbatim>\<open>Abort()\<close> were called and that were destroyed with \<^verbatim>\<open>delete\<close>, in order;
  \<^item> \<open>slept\<close>: the milliseconds the calling thread has spent in \<^verbatim>\<open>wxMilliSleep\<close>;
  \<^item> \<open>sched\<close>: what the workers will do during the coming sleeps of the calling
    thread. Each sleep consumes one entry: the list of workers that make one move
    each, in that order, while the caller sleeps. An exhausted schedule means
    that no worker moves.
\<close>

record cbThreadPool =
  m_pOwner :: nat
  m_ID :: int
  m_Done :: bool
  m_Batching :: bool
  m_Counter :: int
  m_Aborting :: bool
  m_ConcurrentThreads :: int
  m_Threads :: "nat list"
  m_TaskQueue :: "cbTaskElement list"
  heap :: "PrivateThread list"
  posted :: "CodeBlocksEvent list"
  executed :: "nat list"
  aborted :: "nat list"
  deleted :: "nat list"
  slept :: nat
  sched :: "nat list list"

subsection \<open>Worker objects\<close>

text \<open>
  The element a fresh \<^verbatim>\<open>cbTaskElement elem;\<close> holds (line 75). Its constructor is
  declared in \<^verbatim>\<open>cbthreadpool.h\<close>; the only field read before it is overwritten is
  \<open>task\<close>, which \<^verbatim>\<open>GetNextElement\<close> sets to null first.
\<close>

definition cbTaskElement_default :: cbTaskElement where
  "cbTaskElement_default = \<lparr>task = None, autoDelete = False\<rparr>"

definition PrivateThread_new :: PrivateThread where
  "PrivateThread_new =
     \<lparr>m_pTask = None, m_Abort = False, wx_state = STATE_NEW, wx_destroy = False,
      pc = LoopHead, elem = cbTaskElement_default\<rparr>"

definition upd_thread :: "nat \<Rightarrow> (PrivateThread \<Rightarrow> PrivateThread) \<Rightarrow> cbThreadPool \<Rightarrow> cbThreadPool" where
  "upd_thread tid f p = p\<lparr>heap := (heap p)[tid := f (heap p ! tid)]\<rparr>"

text \<open>\<^verbatim>\<open>thread->IsRunning()\<close>.\<close>

definition IsRunning :: "cbThreadPool \<Rightarrow> nat \<Rightarrow> bool" where
  "IsRunning p tid = (tid < length (heap p) \<and> wx_state (heap p ! tid) = STATE_RUNNING)"

text \<open>
  \<^verbatim>\<open>thread->Create()\<close>, \<^verbatim>\<open>thread->Run()\<close> and \<^verbatim>\<open>thread->Kill()\<close>. A \<^verbatim>\<open>wxThread\<close> is
  started once: \<^verbatim>\<open>Run()\<close> starts a created thread that has not run yet and fails,
  changing nothing, on any other (the pool ignores its result). \<^verbatim>\<open>Kill()\<close> stops
  the thread where it stands.
\<close>

definition wxThread_Create :: "nat \<Rightarrow> cbThreadPool \<Rightarrow> cbThreadPool" where
  "wxThread_Create tid p =
     upd_thread tid (\<lambda>th. if wx_state th = STATE_NEW then th\<lparr>wx_state := STATE_CREATED\<rparr> else th) p"

definition wxThread_Run :: "nat \<Rightarrow> cbThreadPool \<Rightarrow> cbThreadPool" where
  "wxThread_Run tid p =
     upd_thread tid (\<lambda>th. if wx_state th = STATE_CREATED then th\<lparr>wx_state := STATE_RUNNING\<rparr> else th) p"

definition wxThread_Kill :: "nat \<Rightarrow> cbThreadPool \<Rightarrow> cbThreadPool" where
  "wxThread_Kill tid p = upd_thread tid (\<lambda>th. th\<lparr>wx_state := STATE_KILLED\<rparr>) p"

text \<open>
  \<^verbatim>\<open>PrivateThread::Abort()\<close> (lines 46-54): forwards the abort to the task in flight,
  if there is one, and raises the worker's flag.
\<close>

definition Abort :: "nat \<Rightarrow> cbThreadPool \<Rightarrow> cbThreadPool" where
  "Abort tid p =
     (let p1 = (case m_pTask (heap p ! tid) of
                  Some t \<Rightarrow> p\<lparr>aborted := aborted p @ [t]\<rparr>
                | None \<Rightarrow> p)
      in upd_thread tid (\<lambda>th. th\<lparr>m_Abort := True\<rparr>) p1)"

text \<open>
  \<^verbatim>\<open>PrivateThread::Aborted()\<close> (lines 34-44): the flag, or else a pending
  \<^verbatim>\<open>wxThread::Delete()\<close>, which is turned into an abort.
\<close>

definition Aborted :: "nat \<Rightarrow> cbThreadPool \<Rightarrow> bool \<times> cbThreadPool" where
  "Aborted tid p =
     (if m_Abort (heap p ! tid) then (True, p)
      else if wx_destroy (heap p ! tid) then (True, Abort tid p)
      else (False, p))"

text \<open>\<^verbatim>\<open>delete task\<close>: deleting the null pointer does nothing.\<close>

definition delete_task :: "task_ptr \<Rightarrow> cbThreadPool \<Rightarrow> cbThreadPool" where
  "delete_task tp p = (case tp of Some t \<Rightarrow> p\<lparr>deleted := deleted p @ [t]\<rparr> | None \<Rightarrow> p)"

subsection \<open>The pool's operations called by the workers\<close>

text \<open>
  \<^verbatim>\<open>cbThreadPool::OnThreadTaskDone\<close> (lines 154-179). The whole body runs inside
  the queue's critical section.
\<close>

definition OnThreadTaskDone :: "cbThreadPool \<Rightarrow> cbThreadPool" where
  "OnThreadTaskDone p =
     (let p1 = p\<lparr>posted := posted p @ [cbEVT_THREADTASK_ENDED (m_ID p)]\<rparr>
      in if m_TaskQueue p1 = [] then
           (let reallyDone = (m_Counter p1 = 0)
            in if reallyDone
               then p1\<lparr>m_Done := True,
                       posted := posted p1 @ [cbEVT_THREADTASK_ALLDONE (m_ID p1)]\<rparr>
               else p1)
         else p1)"

text \<open>
  \<^verbatim>\<open>cbThreadPool::GetNextElement\<close> (lines 233-247). The argument is the caller's
  element, passed by reference; the result is its new value. Every node of the
  queue holds an element (\<^verbatim>\<open>AddTask\<close>, the only writer, appends a freshly
  allocated one), so the test \<^verbatim>\<open>if (elem)\<close> always succeeds.
\<close>

definition GetNextElement :: "cbTaskElement \<Rightarrow> cbThreadPool \<Rightarrow> cbTaskElement \<times> cbThreadPool" where
  "GetNextElement element p =
     (case m_TaskQueue p of
        [] \<Rightarrow> (element\<lparr>task := None\<rparr>, p)
      | e # q \<Rightarrow> (e, p\<lparr>m_TaskQueue := q\<rparr>))"

subsection \<open>The worker's loop\<close>

text \<open>
  One move of a worker inside \<^verbatim>\<open>PrivateThread::Entry()\<close> (lines 56-104): the
  statement at its place, executed as a whole. A worker that is not running
  does not move.
\<close>

definition goto :: "nat \<Rightarrow> loc \<Rightarrow> cbThreadPool \<Rightarrow> cbThreadPool" where
  "goto tid l p = upd_thread tid (\<lambda>th. th\<lparr>pc := l\<rparr>) p"

definition exit_thread :: "nat \<Rightarrow> cbThreadPool \<Rightarrow> cbThreadPool" where
  "exit_thread tid p = upd_thread tid (\<lambda>th. th\<lparr>pc := Returned, wx_state := STATE_EXITED\<rparr>) p"

definition break_if_aborted :: "nat \<Rightarrow> loc \<Rightarrow> cbThreadPool \<Rightarrow> cbThreadPool" where
  "break_if_aborted tid l p =
     (case Aborted tid p of
        (True, p1) \<Rightarrow> exit_thread tid p1
      | (False, p1) \<Rightarrow> goto tid l p1)"

definition Entry_step :: "nat \<Rightarrow> cbThreadPool \<Rightarrow> cbThreadPool" where
  "Entry_step tid p =
     (if \<not> IsRunning p tid then p
      else case pc (heap p ! tid) of
        LoopHead \<Rightarrow> break_if_aborted tid ClearTask p
      | ClearTask \<Rightarrow> upd_thread tid (\<lambda>th. th\<lparr>m_pTask := None, pc := Check1\<rparr>) p
      | Check1 \<Rightarrow> break_if_aborted tid Check2 p
      | Check2 \<Rightarrow> break_if_aborted tid Fetch p
      | Fetch \<Rightarrow>
          (case GetNextElement cbTaskElement_default p of
             (e, p1) \<Rightarrow>
               (let p2 = upd_thread tid (\<lambda>th. th\<lparr>elem := e\<rparr>) p1
                in if task e = None then exit_thread tid p2 else goto tid MarkBusy p2))
      | MarkBusy \<Rightarrow>
          upd_thread tid (\<lambda>th. th\<lparr>m_pTask := task (elem th), pc := Launch\<rparr>)
            (p\<lparr>m_Counter := m_Counter p + 1\<rparr>)
      | Launch \<Rightarrow>
          (case Aborted tid p of
             (True, p1) \<Rightarrow> goto tid MarkIdle p1
           | (False, p1) \<Rightarrow>
               goto tid InExecute
                 (case m_pTask (heap p1 ! tid) of
                    Some t \<Rightarrow> p1\<lparr>executed := executed p1 @ [t]\<rparr>
                  | None \<Rightarrow> p1))
      | InExecute \<Rightarrow> goto tid MarkIdle p
      | MarkIdle \<Rightarrow>
          upd_thread tid (\<lambda>th. th\<lparr>m_pTask := None, pc := Dispose\<rparr>)
            (p\<lparr>m_Counter := m_Counter p - 1\<rparr>)
      | Dispose \<Rightarrow>
          goto tid Notify
            (if autoDelete (elem (heap p ! tid))
             then delete_task (task (elem (heap p ! tid))) p else p)
      | Notify \<Rightarrow> goto tid LoopHead (OnThreadTaskDone p)
      | Returned \<Rightarrow> p)"

text \<open>The moves of a schedule entry, in order; the calling thread makes none.\<close>

fun run_workers :: "thread_ptr \<Rightarrow> nat list \<Rightarrow> cbThreadPool \<Rightarrow> cbThreadPool" where
  "run_workers this [] p = p"
| "run_workers this (tid # tids) p =
     run_workers this tids (if Some tid = this then p else Entry_step tid p)"

text \<open>
  \<^verbatim>\<open>wxMilliSleep(ms)\<close>, called by the thread \<open>this\<close> (\<open>None\<close> is the main thread):
  the clock advances and the workers make the moves of the next schedule entry.
\<close>

definition wxMilliSleep :: "thread_ptr \<Rightarrow> nat \<Rightarrow> cbThreadPool \<Rightarrow> cbThreadPool" where
  "wxMilliSleep this ms p =
     (let p1 = p\<lparr>slept := slept p + ms\<rparr>
      in case sched p1 of
           [] \<Rightarrow> p1
         | slice # rest \<Rightarrow> run_workers this slice (p1\<lparr>sched := rest\<rparr>))"

subsection \<open>The pool's public operations\<close>

text \<open>
  Every operation takes the thread that calls it, \<^verbatim>\<open>wxThread::This()\<close>: \<open>None\<close>
  for the main thread, \<open>Some tid\<close> for a worker (a task may call the pool from
  inside \<^verbatim>\<open>Execute()\<close>).

  \<^verbatim>\<open>cbThreadPool::RunThreads\<close> (lines 193-204). The loops over \<^verbatim>\<open>m_Threads\<close> are
  folds over the list: no statement inside them writes the array. Its entries
  are never null (they come from \<^verbatim>\<open>new PrivateThread\<close>).
\<close>

definition RunThreads :: "thread_ptr \<Rightarrow> cbThreadPool \<Rightarrow> cbThreadPool" where
  "RunThreads this p =
     fold (\<lambda>tid q. if \<not> m_Aborting q \<and> \<not> IsRunning q tid \<and> Some tid \<noteq> this
                    then wxThread_Run tid q else q)
          (m_Threads p) p"

text \<open>\<^verbatim>\<open>cbThreadPool::AddTask\<close> (lines 206-229): the result and the new state.\<close>

definition AddTask :: "thread_ptr \<Rightarrow> task_ptr \<Rightarrow> bool \<Rightarrow> cbThreadPool \<Rightarrow> bool \<times> cbThreadPool" where
  "AddTask this tp del p =
     (if m_Aborting p then (False, if del then delete_task tp p else p)
      else
        (let p1 = p\<lparr>m_TaskQueue := m_TaskQueue p @ [\<lparr>task = tp, autoDelete = del\<rparr>],
                    m_Done := False\<rparr>
         in (True, if \<not> m_Batching p1 then RunThreads this p1 else p1)))"

text \<open>\<^verbatim>\<open>cbThreadPool::BatchBegin\<close> and \<^verbatim>\<open>cbThreadPool::BatchEnd\<close> (lines 181-191).\<close>

definition BatchBegin :: "cbThreadPool \<Rightarrow> cbThreadPool" where
  "BatchBegin p = p\<lparr>m_Batching := True\<rparr>"

definition BatchEnd :: "thread_ptr \<Rightarrow> cbThreadPool \<Rightarrow> cbThreadPool" where
  "BatchEnd this p = RunThreads this (p\<lparr>m_Batching := False\<rparr>)"

text \<open>\<^verbatim>\<open>cbThreadPool::ClearTaskQueue\<close> (lines 258-270).\<close>

definition ClearTaskQueue :: "cbThreadPool \<Rightarrow> cbThreadPool" where
  "ClearTaskQueue p =
     (fold (\<lambda>e q. if autoDelete e then delete_task (task e) q else q) (m_TaskQueue p) p)
       \<lparr>m_TaskQueue := []\<rparr>"

text \<open>
  The inner loop of \<^verbatim>\<open>cbThreadPool::FreeThreads\<close> (lines 309-324) for one worker;
  \<open>count\<close> is the local variable of that name.
\<close>

function stop_loop :: "thread_ptr \<Rightarrow> nat \<Rightarrow> nat \<Rightarrow> cbThreadPool \<Rightarrow> cbThreadPool" where
  "stop_loop this tid count p =
     (if IsRunning p tid then
        (if count + 1 > 10 then
           (let p1 = wxMilliSleep this 1 (Abort tid p)
            in if IsRunning p1 tid then wxThread_Kill tid p1 else p1)
         else stop_loop this tid (count + 1) (wxMilliSleep this 1 (Abort tid p)))
      else p)"
  by pat_completeness auto
termination
  by (relation "measure (\<lambda>(this, tid, count, p). 11 - count)") auto

text \<open>\<^verbatim>\<open>cbThreadPool::FreeThreads\<close> (lines 284-327).\<close>

definition FreeThreads :: "thread_ptr \<Rightarrow> cbThreadPool \<Rightarrow> cbThreadPool" where
  "FreeThreads this p =
     (let p1 = fold Abort (m_Threads p) p;
          p2 = wxMilliSleep this 21 p1;
          p3 = fold (\<lambda>tid q. if Some tid = this then q else stop_loop this tid 0 q)
                    (m_Threads p2) p2
      in p3\<lparr>m_Threads := []\<rparr>)"

text \<open>
  \<^verbatim>\<open>cbThreadPool::AllocThreads\<close> (lines 272-282). The body of its loop allocates a
  worker at the end of the arena, creates its thread and adds the pointer to
  \<^verbatim>\<open>m_Threads\<close>; the loop \<^verbatim>\<open>for (int i = 0; i < m_ConcurrentThreads; ++i)\<close> runs
  the body \<open>nat m_ConcurrentThreads\<close> times, that is, not at all when the field is
  zero or negative.
\<close>

definition alloc_thread :: "cbThreadPool \<Rightarrow> cbThreadPool" where
  "alloc_thread p =
     (let thr = length (heap p);
          p1 = p\<lparr>heap := heap p @ [PrivateThread_new]\<rparr>;
          p2 = wxThread_Create thr p1
      in p2\<lparr>m_Threads := m_Threads p2 @ [thr]\<rparr>)"

primrec alloc_loop :: "nat \<Rightarrow> cbThreadPool \<Rightarrow> cbThreadPool" where
  "alloc_loop 0 p = p"
| "alloc_loop (Suc n) p = alloc_loop n (alloc_thread p)"

definition AllocThreads :: "thread_ptr \<Rightarrow> cbThreadPool \<Rightarrow> cbThreadPool" where
  "AllocThreads this p =
     (let p1 = FreeThreads this p in alloc_loop (nat (m_ConcurrentThreads p1)) p1)"

text \<open>
  \<^verbatim>\<open>cbThreadPool::SetConcurrentThreads\<close> (lines 135-151). \<open>GetCPUCount\<close> is what
  \<^verbatim>\<open>wxThread::GetCPUCount()\<close> returns on the machine. The debug log line is left
  out.
\<close>

definition SetConcurrentThreads :: "int \<Rightarrow> thread_ptr \<Rightarrow> int \<Rightarrow> cbThreadPool \<Rightarrow> cbThreadPool" where
  "SetConcurrentThreads GetCPUCount this concurrentThreads p =
     (let p1 = (if concurrentThreads = - 1 then p\<lparr>m_ConcurrentThreads := GetCPUCount\<rparr>
                else p\<lparr>m_ConcurrentThreads := concurrentThreads\<rparr>);
          p2 = (if m_ConcurrentThreads p1 = - 1 then p1\<lparr>m_ConcurrentThreads := 1\<rparr> else p1)
      in AllocThreads this p2)"

text \<open>
  The constructor (lines 116-126). The schedule \<open>sch\<close> is the environment's: what
  the workers will do during the sleeps of later calls. The constructor's
  initialiser list leaves \<^verbatim>\<open>m_ConcurrentThreads\<close> unset; \<^verbatim>\<open>SetConcurrentThreads\<close>
  writes it before anything reads it.
\<close>

definition cbThreadPool_new :: "int \<Rightarrow> nat list list \<Rightarrow> nat \<Rightarrow> int \<Rightarrow> int \<Rightarrow> cbThreadPool" where
  "cbThreadPool_new GetCPUCount sch owner ident concurrentThreads =
     SetConcurrentThreads GetCPUCount None concurrentThreads
       \<lparr>m_pOwner = owner, m_ID = ident, m_Done = True, m_Batching = False, m_Counter = 0,
        m_Aborting = False, m_ConcurrentThreads = 0, m_Threads = [], m_TaskQueue = [],
        heap = [], posted = [], executed = [], aborted = [], deleted = [], slept = 0,
        sched = sch\<rparr>"

text \<open>\<^verbatim>\<open>cbThreadPool::AbortAllTasks\<close> (lines 249-256).\<close>

definition AbortAllTasks :: "thread_ptr \<Rightarrow> cbThreadPool \<Rightarrow> cbThreadPool" where
  "AbortAllTasks this p =
     (let p1 = p\<lparr>m_Aborting := True\<rparr>;
          p2 = ClearTaskQueue p1;
          p3 = FreeThreads this p2;
          p4 = AllocThreads this p3
      in p4\<lparr>m_Aborting := False\<rparr>)"

subsection \<open>Runs of the pool\<close>

text \<open>
  What can happen to a pool after its construction: a call of one of its public
  operations by some thread, or one move of one worker. A run is a sequence of
  such actions; \<open>reachable\<close> are the states that a run from a freshly constructed
  pool can end in.

  The threads interleave at this grain: a move of a worker is one statement of
  \<^verbatim>\<open>Entry()\<close> or one of its critical sections, and a public operation runs as a
  whole, the workers moving between two operations and, inside
  \<^verbatim>\<open>FreeThreads\<close>, while the caller sleeps. Every run of this model is a schedule
  of the program. A pointer to a worker is always an index of the arena, since
  the pool takes its pointers from \<^verbatim>\<open>new PrivateThread\<close> only.
\<close>

datatype action =
  CallAddTask thread_ptr task_ptr bool
  | CallBatchBegin
  | CallBatchEnd thread_ptr
  | CallAbortAllTasks thread_ptr
  | CallSetConcurrentThreads int thread_ptr int
  | WorkerMove nat

fun perform :: "action \<Rightarrow> cbThreadPool \<Rightarrow> cbThreadPool" where
  "perform (CallAddTask this tp del) p = snd (AddTask this tp del p)"
| "perform CallBatchBegin p = BatchBegin p"
| "perform (CallBatchEnd this) p = BatchEnd this p"
| "perform (CallAbortAllTasks this) p = AbortAllTasks this p"
| "perform (CallSetConcurrentThreads cpu this n) p = SetConcurrentThreads cpu this n p"
| "perform (WorkerMove tid) p = Entry_step tid p"

definition run :: "action list \<Rightarrow> cbThreadPool \<Rightarrow> cbThreadPool" where
  "run acts p = fold perform acts p"

inductive reachable :: "cbThreadPool \<Rightarrow> bool" where
  reachable_new: "reachable (cbThreadPool_new cpu sch owner ident n)"
| reachable_perform: "reachable p \<Longrightarrow> reachable (perform a p)"

subsection \<open>Notions the properties are stated with\<close>

text \<open>
  The equivalence the done flag is meant to express: the flag is set exactly when
  nothing is queued and no worker is counted as busy.
\<close>

definition done_equivalence :: "cbThreadPool \<Rightarrow> bool" where
  "done_equivalence p = (m_Done p = (m_TaskQueue p = [] \<and> m_Counter p = 0))"

text \<open>The numbers of notifications of either kind posted so far.\<close>

fun is_ended :: "CodeBlocksEvent \<Rightarrow> bool" where
  "is_ended (cbEVT_THREADTASK_ENDED i) = True"
| "is_ended (cbEVT_THREADTASK_ALLDONE i) = False"

definition count_ended :: "cbThreadPool \<Rightarrow> nat" where
  "count_ended p = length (filter is_ended (posted p))"

definition count_alldone :: "cbThreadPool \<Rightarrow> nat" where
  "count_alldone p = length (filter (\<lambda>e. \<not> is_ended e) (posted p))"

text \<open>The accepted and rejected submissions among the actions of a run.\<close>

fun is_submission :: "action \<Rightarrow> bool" where
  "is_submission (CallAddTask this tp del) = True"
| "is_submission a = False"

definition submissions :: "action list \<Rightarrow> nat" where
  "submissions acts = length (filter is_submission acts)"

text \<open>
  A worker is busy from the moment it has recorded its task (after lines 80-83)
  until it has cleared the record again (lines 90-93); everywhere else in
  \<^verbatim>\<open>Entry()\<close> it is idle.
\<close>

fun State_of :: "loc \<Rightarrow> State" where
  "State_of Launch = Busy"
| "State_of InExecute = Busy"
| "State_of MarkIdle = Busy"
| "State_of l = Idle"

definition busy_workers :: "cbThreadPool \<Rightarrow> nat" where
  "busy_workers p = length (filter (\<lambda>th. State_of (pc th) = Busy) (heap p))"

text \<open>
  Submitting a list of elements one after the other, and calling
  \<^verbatim>\<open>GetNextElement\<close> a number of times in a row, collecting what it returns.
\<close>

fun AddTasks :: "thread_ptr \<Rightarrow> cbTaskElement list \<Rightarrow> cbThreadPool \<Rightarrow> cbThreadPool" where
  "AddTasks this [] p = p"
| "AddTasks this (e # es) p = AddTasks this es (snd (AddTask this (task e) (autoDelete e) p))"

fun GetNextElements :: "nat \<Rightarrow> cbThreadPool \<Rightarrow> cbTaskElement list \<times> cbThreadPool" where
  "GetNextElements 0 p = ([], p)"
| "GetNextElements (Suc n) p =
     (case GetNextElement cbTaskElement_default p of
        (e, p1) \<Rightarrow> (case GetNextElements n p1 of (es, p2) \<Rightarrow> (e # es, p2)))"

text \<open>
  A worker that \<^verbatim>\<open>AllocThreads\<close> has just allocated and created: no task in
  flight, no abort requested, not started.
\<close>

definition fresh_worker :: PrivateThread where
  "fresh_worker = PrivateThread_new\<lparr>wx_state := STATE_CREATED\<rparr>"

text \<open>
  The workers that can still start a task are those that run without their abort
  flag. A pool is \<open>quiet\<close> when there is none.
\<close>

definition quiet :: "cbThreadPool \<Rightarrow> bool" where
  "quiet p = list_all (\<lambda>th. wx_state th = STATE_RUNNING \<longrightarrow> m_Abort th \<or> wx_destroy th) (heap p)"

text \<open>
  The relation between the task reference of the workers and the busy counter:
  every worker holds a task reference exactly when it is busy, and the counter
  is the number of busy workers. A worker that has fetched an element and is
  about to record it holds a non-null task in that element.
\<close>

definition in_flight_iff_busy :: "cbThreadPool \<Rightarrow> bool" where
  "in_flight_iff_busy p =
     (list_all (\<lambda>th. (m_pTask th \<noteq> None) = (State_of (pc th) = Busy)) (heap p) \<and>
      m_Counter p = int (busy_workers p))"

definition fetched_task :: "cbThreadPool \<Rightarrow> bool" where
  "fetched_task p = list_all (\<lambda>th. pc th = MarkBusy \<longrightarrow> task (elem th) \<noteq> None) (heap p)"

text \<open>
  The workers the pool still refers to: every worker that runs without its abort
  flag is one of \<^verbatim>\<open>m_Threads\<close>.
\<close>

definition live_in_pool :: "cbThreadPool \<Rightarrow> bool" where
  "live_in_pool p =
     (\<forall>tid < length (heap p).
        wx_state (heap p ! tid) = STATE_RUNNING \<longrightarrow>
        m_Abort (heap p ! tid) \<or> wx_destroy (heap p ! tid) \<or> tid \<in> set (m_Threads p))"

text \<open>
  The tasks the pool has accepted and not yet reported: those in the queue and
  those a worker has fetched and not yet notified the pool about.
\<close>

fun holds_element :: "loc \<Rightarrow> bool" where
  "holds_element MarkBusy = True"
| "holds_element Launch = True"
| "holds_element InExecute = True"
| "holds_element MarkIdle = True"
| "holds_element Dispose = True"
| "holds_element Notify = True"
| "holds_element l = False"

definition unreported :: "cbThreadPool \<Rightarrow> nat" where
  "unreported p =
     length (m_TaskQueue p) + length (filter holds_element (map pc (heap p)))"

text \<open>
  The account of the tasks after \<open>k\<close> submissions: there are no more \<open>all done\<close>
  than \<open>task ended\<close> notifications; the tasks reported and those still to be
  reported are at most \<open>k\<close>; the task references and the counter agree; and
  when all \<open>k\<close> tasks (at least one) have been reported, the last notification
  is an \<open>all done\<close> one and the done flag is set.
\<close>

definition accounted :: "nat \<Rightarrow> cbThreadPool \<Rightarrow> bool" where
  "accounted k p =
     (count_alldone p \<le> count_ended p \<and> count_ended p + unreported p \<le> k \<and>
      in_flight_iff_busy p \<and> fetched_task p \<and>
      (count_ended p = k \<and> 1 \<le> k \<longrightarrow>
         posted p \<noteq> [] \<and> \<not> is_ended (last (posted p)) \<and> m_Done p))"

text \<open>The one action that sets the number of workers.\<close>

fun is_reconfiguration :: "action \<Rightarrow> bool" where
  "is_reconfiguration (CallSetConcurrentThreads cpu this n) = True"
| "is_reconfiguration a = False"

text \<open>What \<^verbatim>\<open>ClearTaskQueue\<close> deletes for one element of the queue.\<close>

definition owned_task :: "cbTaskElement \<Rightarrow> nat list" where
  "owned_task e = (if autoDelete e then (case task e of Some t \<Rightarrow> [t] | None \<Rightarrow> []) else [])"

section \<open>Frames: what each operation leaves alone\<close>

lemma upd_thread_fields [simp]:
  "m_pOwner (upd_thread tid f p) = m_pOwner p"
  "m_ID (upd_thread tid f p) = m_ID p"
  "m_Done (upd_thread tid f p) = m_Done p"
  "m_Batching (upd_thread tid f p) = m_Batching p"
  "m_Counter (upd_thread tid f p) = m_Counter p"
  "m_Aborting (upd_thread tid f p) = m_Aborting p"
  "m_ConcurrentThreads (upd_thread tid f p) = m_ConcurrentThreads p"
  "m_Threads (upd_thread tid f p) = m_Threads p"
  "m_TaskQueue (upd_thread tid f p) = m_TaskQueue p"
  "posted (upd_thread tid f p) = posted p"
  "executed (upd_thread tid f p) = executed p"
  "aborted (upd_thread tid f p) = aborted p"
  "deleted (upd_thread tid f p) = deleted p"
  "slept (upd_thread tid f p) = slept p"
  "sched (upd_thread tid f p) = sched p"
  "heap (upd_thread tid f p) = (heap p)[tid := f (heap p ! tid)]"
  by (simp_all add: upd_thread_def)

lemma RunThreads_loop_only_heap:
  "fold (\<lambda>tid q. if \<not> m_Aborting q \<and> \<not> IsRunning q tid \<and> Some tid \<noteq> this
                    then wxThread_Run tid q else q) xs p
   = p\<lparr>heap := heap (fold (\<lambda>tid q. if \<not> m_Aborting q \<and> \<not> IsRunning q tid \<and> Some tid \<noteq> this
                    then wxThread_Run tid q else q) xs p)\<rparr>"
proof (induction xs arbitrary: p)
  case Nil
  show ?case by simp
next
  case (Cons x xs)
  let ?F = "\<lambda>tid q. if \<not> m_Aborting q \<and> \<not> IsRunning q tid \<and> Some tid \<noteq> this
                    then wxThread_Run tid q else q"
  have step: "?F x p = p\<lparr>heap := heap (?F x p)\<rparr>"
    by (simp add: wxThread_Run_def upd_thread_def)
  have "fold ?F (x # xs) p = fold ?F xs (?F x p)" by simp
  also have "\<dots> = (?F x p)\<lparr>heap := heap (fold ?F xs (?F x p))\<rparr>" by (rule Cons.IH)
  also have "\<dots> = p\<lparr>heap := heap (fold ?F xs (?F x p))\<rparr>"
    by (subst step) simp
  finally show ?case by simp
qed

lemma RunThreads_only_heap: "RunThreads this p = p\<lparr>heap := heap (RunThreads this p)\<rparr>"
  unfolding RunThreads_def by (rule RunThreads_loop_only_heap)

lemma RunThreads_fields [simp]:
  "m_pOwner (RunThreads this p) = m_pOwner p"
  "m_ID (RunThreads this p) = m_ID p"
  "m_Done (RunThreads this p) = m_Done p"
  "m_Batching (RunThreads this p) = m_Batching p"
  "m_Counter (RunThreads this p) = m_Counter p"
  "m_Aborting (RunThreads this p) = m_Aborting p"
  "m_ConcurrentThreads (RunThreads this p) = m_ConcurrentThreads p"
  "m_Threads (RunThreads this p) = m_Threads p"
  "m_TaskQueue (RunThreads this p) = m_TaskQueue p"
  "posted (RunThreads this p) = posted p"
  "executed (RunThreads this p) = executed p"
  "aborted (RunThreads this p) = aborted p"
  "deleted (RunThreads this p) = deleted p"
  "slept (RunThreads this p) = slept p"
  "sched (RunThreads this p) = sched p"
  by (subst RunThreads_only_heap, simp)+



lemma RunThreads_no_threads: "m_Threads p = [] \<Longrightarrow> RunThreads this p = p"
  by (simp add: RunThreads_def)

lemma AddTask_fields [simp]:
  "m_pOwner (snd (AddTask this tp del p)) = m_pOwner p"
  "m_ID (snd (AddTask this tp del p)) = m_ID p"
  "m_Batching (snd (AddTask this tp del p)) = m_Batching p"
  "m_Counter (snd (AddTask this tp del p)) = m_Counter p"
  "m_Aborting (snd (AddTask this tp del p)) = m_Aborting p"
  "m_ConcurrentThreads (snd (AddTask this tp del p)) = m_ConcurrentThreads p"
  "m_Threads (snd (AddTask this tp del p)) = m_Threads p"
  "posted (snd (AddTask this tp del p)) = posted p"
  "executed (snd (AddTask this tp del p)) = executed p"
  "aborted (snd (AddTask this tp del p)) = aborted p"
  "slept (snd (AddTask this tp del p)) = slept p"
  "sched (snd (AddTask this tp del p)) = sched p"
  by (simp_all add: AddTask_def delete_task_def Let_def split: option.splits)

lemma AddTask_queue:
  "m_TaskQueue (snd (AddTask this tp del p)) =
     (if m_Aborting p then m_TaskQueue p else m_TaskQueue p @ [\<lparr>task = tp, autoDelete = del\<rparr>])"
  by (simp add: AddTask_def delete_task_def Let_def split: option.splits)

lemma AddTask_done:
  "m_Done (snd (AddTask this tp del p)) = (m_Aborting p \<and> m_Done p)"
  by (simp add: AddTask_def delete_task_def Let_def split: option.splits)

lemma AddTasks_queue:
  "\<not> m_Aborting p \<Longrightarrow> m_TaskQueue (AddTasks this es p) = m_TaskQueue p @ es"
  by (induction es arbitrary: p) (simp_all add: AddTask_queue)

lemma GetNextElements_prefix:
  "m_TaskQueue p = es @ rest \<Longrightarrow>
     GetNextElements (length es) p = (es, p\<lparr>m_TaskQueue := rest\<rparr>)"
proof (induction es arbitrary: p)
  case Nil
  then show ?case by simp
next
  case (Cons e es)
  then have "m_TaskQueue (p\<lparr>m_TaskQueue := es @ rest\<rparr>) = es @ rest" by simp
  from Cons.IH [OF this] Cons.prems show ?case
    by (simp add: GetNextElement_def)
qed

section \<open>Allocation and construction\<close>

lemma alloc_thread_eq:
  "alloc_thread p =
     p\<lparr>heap := heap p @ [fresh_worker], m_Threads := m_Threads p @ [length (heap p)]\<rparr>"
  by (simp add: alloc_thread_def Let_def wxThread_Create_def upd_thread_def fresh_worker_def
      PrivateThread_new_def)

lemma alloc_loop_eq:
  "alloc_loop k p =
     p\<lparr>heap := heap p @ replicate k fresh_worker,
       m_Threads := m_Threads p @ [length (heap p) ..< length (heap p) + k]\<rparr>"
proof (induction k arbitrary: p)
  case 0
  show ?case by simp
next
  case (Suc k)
  have "[length (heap p) ..< length (heap p) + Suc k] =
        length (heap p) # [Suc (length (heap p)) ..< Suc (length (heap p)) + k]"
    by (simp add: upt_conv_Cons)
  then show ?case
    by (simp add: Suc.IH alloc_thread_eq replicate_app_Cons_same)
qed

lemma Entry_step_not_running: "\<not> IsRunning p tid \<Longrightarrow> Entry_step tid p = p"
  by (simp add: Entry_step_def)

lemma run_workers_no_heap: "heap p = [] \<Longrightarrow> run_workers this ws p = p"
  by (induction ws arbitrary: p) (simp_all add: Entry_step_not_running IsRunning_def)

lemma wxMilliSleep_no_heap:
  "heap p = [] \<Longrightarrow> wxMilliSleep this ms p = p\<lparr>slept := slept p + ms, sched := tl (sched p)\<rparr>"
  by (cases "sched p") (simp_all add: wxMilliSleep_def Let_def run_workers_no_heap)

lemma FreeThreads_no_heap:
  "heap p = [] \<Longrightarrow> m_Threads p = [] \<Longrightarrow>
     FreeThreads this p = p\<lparr>slept := slept p + 21, sched := tl (sched p)\<rparr>"
  by (simp add: FreeThreads_def Let_def wxMilliSleep_no_heap)

text \<open>The state the constructor returns, field by field.\<close>

lemma cbThreadPool_new_eq:
  "cbThreadPool_new cpu sch owner ident n =
     \<lparr>m_pOwner = owner, m_ID = ident, m_Done = True, m_Batching = False, m_Counter = 0,
      m_Aborting = False,
      m_ConcurrentThreads = (if n = - 1 then (if cpu = - 1 then 1 else cpu) else n),
      m_Threads = [0 ..< nat (if n = - 1 then (if cpu = - 1 then 1 else cpu) else n)],
      m_TaskQueue = [],
      heap = replicate (nat (if n = - 1 then (if cpu = - 1 then 1 else cpu) else n)) fresh_worker,
      posted = [], executed = [], aborted = [], deleted = [], slept = 21,
      sched = tl sch\<rparr>"
  by (simp add: cbThreadPool_new_def SetConcurrentThreads_def AllocThreads_def Let_def
      FreeThreads_no_heap alloc_loop_eq)

section \<open>Submission\<close>

text \<open>
  C3. A task submitted while the pool's aborting flag is set is rejected:
  \<^verbatim>\<open>AddTask\<close> returns false, the queue and the workers are as before, and when
  \<open>autoDelete\<close> was asked for the pool destroys the task (one \<^verbatim>\<open>delete\<close> of it is
  recorded); without \<open>autoDelete\<close> nothing is deleted.
\<close>

theorem AddTask_rejected_while_aborting:
  "m_Aborting p \<Longrightarrow>
     fst (AddTask this tp del p) = False \<and>
     m_TaskQueue (snd (AddTask this tp del p)) = m_TaskQueue p \<and>
     heap (snd (AddTask this tp del p)) = heap p \<and>
     m_Done (snd (AddTask this tp del p)) = m_Done p \<and>
     deleted (snd (AddTask this tp del p)) =
       deleted p @ (case (del, tp) of (True, Some t) \<Rightarrow> [t] | _ \<Rightarrow> [])"
  by (simp add: AddTask_def delete_task_def split: option.splits)

theorem AddTask_rejected_while_aborting_witness:
  "m_Aborting ((cbThreadPool_new 4 [] 7 42 2)\<lparr>m_Aborting := True\<rparr>) \<and>
   fst (AddTask None (Some 5) True ((cbThreadPool_new 4 [] 7 42 2)\<lparr>m_Aborting := True\<rparr>)) = False \<and>
   m_TaskQueue (snd (AddTask None (Some 5) True ((cbThreadPool_new 4 [] 7 42 2)\<lparr>m_Aborting := True\<rparr>))) = [] \<and>
   deleted (snd (AddTask None (Some 5) True ((cbThreadPool_new 4 [] 7 42 2)\<lparr>m_Aborting := True\<rparr>))) = [5]"
proof -
  have h: "m_Aborting ((cbThreadPool_new 4 [] 7 42 2)\<lparr>m_Aborting := True\<rparr>)" by simp
  from AddTask_rejected_while_aborting [OF h, of None "Some 5" True] h
  show ?thesis by (simp add: cbThreadPool_new_eq)
qed





section \<open>Properties kept by the composite operations\<close>

text \<open>
  The operations that stop and reallocate workers are built from a few writes:
  a move of a worker, \<^verbatim>\<open>Abort()\<close> and \<^verbatim>\<open>Kill()\<close> of a worker, the clock and the
  schedule of a sleep, and the writes of the pool's own fields. A property that
  each of these writes keeps is kept by the operation. The lemmas of this section
  say so once for every operation; the property is a parameter.
\<close>

declare stop_loop.simps [simp del]

lemma run_workers_preserves:
  assumes step: "\<And>q tid. I q \<Longrightarrow> I (Entry_step tid q)"
    and p: "I p"
  shows "I (run_workers this ws p)"
  using p by (induction ws arbitrary: p) (simp_all add: step)

lemma wxMilliSleep_preserves:
  assumes step: "\<And>q tid. I q \<Longrightarrow> I (Entry_step tid q)"
    and clock: "\<And>q n. I q \<Longrightarrow> I (q\<lparr>slept := n\<rparr>)"
    and sch: "\<And>q s. I q \<Longrightarrow> I (q\<lparr>sched := s\<rparr>)"
    and p: "I p"
  shows "I (wxMilliSleep this ms p)"
proof (cases "sched p")
  case Nil
  then show ?thesis using clock [OF p] by (simp add: wxMilliSleep_def Let_def)
next
  case (Cons slice rest)
  have "I (p\<lparr>slept := slept p + ms, sched := rest\<rparr>)"
    using sch [OF clock [OF p]] by simp
  from run_workers_preserves [where I = I, OF step this] Cons
  show ?thesis by (simp add: wxMilliSleep_def Let_def)
qed

lemma stop_loop_preserves:
  assumes step: "\<And>q tid. I q \<Longrightarrow> I (Entry_step tid q)"
    and abort: "\<And>q tid. I q \<Longrightarrow> I (Abort tid q)"
    and kill: "\<And>q tid. I q \<Longrightarrow> IsRunning q tid \<Longrightarrow> I (wxThread_Kill tid q)"
    and clock: "\<And>q n. I q \<Longrightarrow> I (q\<lparr>slept := n\<rparr>)"
    and sch: "\<And>q s. I q \<Longrightarrow> I (q\<lparr>sched := s\<rparr>)"
    and p: "I p"
  shows "I (stop_loop this tid count p)"
  using p
proof (induction this tid count p rule: stop_loop.induct)
  case (1 this tid count p)
  have round: "I (wxMilliSleep this 1 (Abort tid p))"
    by (rule wxMilliSleep_preserves [where I = I, OF step clock sch abort [OF "1.prems"]])
  show ?case
  proof (cases "IsRunning p tid")
    case False
    then show ?thesis using "1.prems" by (simp add: stop_loop.simps [of this tid count p])
  next
    case run: True
    show ?thesis
    proof (cases "count + 1 > 10")
      case True
      then show ?thesis using run round kill [OF round]
        by (simp add: stop_loop.simps [of this tid count p] Let_def)
    next
      case False
      from "1.IH" [OF run False round] run False
      show ?thesis by (simp add: stop_loop.simps [of this tid count p])
    qed
  qed
qed

lemma fold_preserves:
  assumes "\<And>q x. I q \<Longrightarrow> x \<in> set xs \<Longrightarrow> I (f x q)" and "I p"
  shows "I (fold f xs p)"
  using assms by (induction xs arbitrary: p) simp_all

text \<open>
  \<^verbatim>\<open>FreeThreads\<close> first raises the abort flag of every worker of the pool. What
  holds after that loop and is kept by the rest holds until the array is
  cleared.
\<close>

lemma FreeThreads_establishes:
  assumes step: "\<And>q tid. I q \<Longrightarrow> I (Entry_step tid q)"
    and abort: "\<And>q tid. I q \<Longrightarrow> I (Abort tid q)"
    and kill: "\<And>q tid. I q \<Longrightarrow> IsRunning q tid \<Longrightarrow> I (wxThread_Kill tid q)"
    and clock: "\<And>q n. I q \<Longrightarrow> I (q\<lparr>slept := n\<rparr>)"
    and sch: "\<And>q s. I q \<Longrightarrow> I (q\<lparr>sched := s\<rparr>)"
    and clear: "\<And>q. I q \<Longrightarrow> J (q\<lparr>m_Threads := []\<rparr>)"
    and a: "I (fold Abort (m_Threads p) p)"
  shows "J (FreeThreads this p)"
proof -
  have b: "I (wxMilliSleep this 21 (fold Abort (m_Threads p) p))"
    by (rule wxMilliSleep_preserves [where I = I, OF step clock sch a])
  have c: "I (fold (\<lambda>tid q. if Some tid = this then q else stop_loop this tid 0 q) xs
             (wxMilliSleep this 21 (fold Abort (m_Threads p) p)))" for xs
  proof (rule fold_preserves [where I = I, OF _ b])
    fix q x assume "I q"
    then show "I (if Some x = this then q else stop_loop this x 0 q)"
      using stop_loop_preserves [where I = I, OF step abort kill clock sch] by simp
  qed
  show ?thesis unfolding FreeThreads_def Let_def by (rule clear [OF c])
qed

lemma FreeThreads_preserves:
  assumes step: "\<And>q tid. I q \<Longrightarrow> I (Entry_step tid q)"
    and abort: "\<And>q tid. I q \<Longrightarrow> I (Abort tid q)"
    and kill: "\<And>q tid. I q \<Longrightarrow> IsRunning q tid \<Longrightarrow> I (wxThread_Kill tid q)"
    and clock: "\<And>q n. I q \<Longrightarrow> I (q\<lparr>slept := n\<rparr>)"
    and sch: "\<And>q s. I q \<Longrightarrow> I (q\<lparr>sched := s\<rparr>)"
    and clear: "\<And>q. I q \<Longrightarrow> I (q\<lparr>m_Threads := []\<rparr>)"
    and p: "I p"
  shows "I (FreeThreads this p)"
  by (rule FreeThreads_establishes [where I = I and J = I, OF step abort kill clock sch clear
        fold_preserves [where I = I, OF abort p]])

lemma alloc_loop_preserves:
  assumes "\<And>q. I q \<Longrightarrow> I (alloc_thread q)" and "I p"
  shows "I (alloc_loop k p)"
  using assms by (induction k arbitrary: p) simp_all

lemma AllocThreads_preserves:
  assumes step: "\<And>q tid. I q \<Longrightarrow> I (Entry_step tid q)"
    and abort: "\<And>q tid. I q \<Longrightarrow> I (Abort tid q)"
    and kill: "\<And>q tid. I q \<Longrightarrow> IsRunning q tid \<Longrightarrow> I (wxThread_Kill tid q)"
    and clock: "\<And>q n. I q \<Longrightarrow> I (q\<lparr>slept := n\<rparr>)"
    and sch: "\<And>q s. I q \<Longrightarrow> I (q\<lparr>sched := s\<rparr>)"
    and clear: "\<And>q. I q \<Longrightarrow> I (q\<lparr>m_Threads := []\<rparr>)"
    and alloc: "\<And>q. I q \<Longrightarrow> I (alloc_thread q)"
    and p: "I p"
  shows "I (AllocThreads this p)"
  unfolding AllocThreads_def Let_def
  by (rule alloc_loop_preserves [where I = I, OF alloc
        FreeThreads_preserves [where I = I, OF step abort kill clock sch clear p]])

lemma Run_fields [simp]:
  "m_Threads (wxThread_Run tid q) = m_Threads q"
  "m_Aborting (wxThread_Run tid q) = m_Aborting q"
  by (simp_all add: wxThread_Run_def)

lemma RunThreads_preserves:
  assumes run: "\<And>q tid. I q \<Longrightarrow> \<not> m_Aborting q \<Longrightarrow> tid \<in> set (m_Threads q) \<Longrightarrow>
                  I (wxThread_Run tid q)"
    and p: "I p"
  shows "I (RunThreads this p)"
proof -
  have "I (RunThreads this p) \<and> m_Threads (RunThreads this p) = m_Threads p"
    unfolding RunThreads_def
    by (rule fold_preserves [where I = "\<lambda>q. I q \<and> m_Threads q = m_Threads p"])
       (simp_all add: run p)
  then show ?thesis by simp
qed

section \<open>One move of a worker\<close>

lemmas Entry_defs =
  Entry_step_def break_if_aborted_def Aborted_def Abort_def goto_def exit_thread_def
  OnThreadTaskDone_def GetNextElement_def delete_task_def Let_def

lemma Entry_step_fields [simp]:
  "m_pOwner (Entry_step tid p) = m_pOwner p"
  "m_ID (Entry_step tid p) = m_ID p"
  "m_Batching (Entry_step tid p) = m_Batching p"
  "m_Aborting (Entry_step tid p) = m_Aborting p"
  "m_ConcurrentThreads (Entry_step tid p) = m_ConcurrentThreads p"
  "m_Threads (Entry_step tid p) = m_Threads p"
  "slept (Entry_step tid p) = slept p"
  "sched (Entry_step tid p) = sched p"
  "length (heap (Entry_step tid p)) = length (heap p)"
  by (cases "IsRunning p tid"; cases "pc (heap p ! tid)";
      simp add: Entry_defs split: option.splits list.splits)+

text \<open>A move of a worker writes no worker object but its own.\<close>

lemma Entry_step_heap:
  "heap (Entry_step tid p) = (heap p)[tid := heap (Entry_step tid p) ! tid]"
  by (cases "IsRunning p tid"; cases "pc (heap p ! tid)";
      simp add: Entry_defs IsRunning_def split: option.splits list.splits)

lemma Entry_step_other:
  "t \<noteq> tid \<Longrightarrow> heap (Entry_step tid p) ! t = heap p ! t"
  by (subst Entry_step_heap) simp

lemma Entry_step_own:
  "IsRunning p tid \<Longrightarrow>
     (m_Abort (heap p ! tid) \<longrightarrow> m_Abort (heap (Entry_step tid p) ! tid)) \<and>
     wx_destroy (heap (Entry_step tid p) ! tid) = wx_destroy (heap p ! tid) \<and>
     (wx_state (heap (Entry_step tid p) ! tid) = STATE_RUNNING \<or>
      wx_state (heap (Entry_step tid p) ! tid) = STATE_EXITED)"
  by (cases "pc (heap p ! tid)";
      simp add: Entry_defs IsRunning_def split: option.splits list.splits)

lemma Entry_step_wx_state:
  "wx_state (heap (Entry_step tid p) ! t) = wx_state (heap p ! t) \<or>
   (wx_state (heap p ! t) = STATE_RUNNING \<and> wx_state (heap (Entry_step tid p) ! t) = STATE_EXITED)"
proof (cases "t = tid \<and> IsRunning p tid")
  case True
  then show ?thesis using Entry_step_own [of p tid] by (auto simp: IsRunning_def)
next
  case False
  then show ?thesis by (auto simp: Entry_step_other Entry_step_not_running)
qed

lemma Entry_step_m_Abort:
  assumes "m_Abort (heap p ! t)"
  shows "m_Abort (heap (Entry_step tid p) ! t)"
proof (cases "t = tid \<and> IsRunning p tid")
  case True
  then show ?thesis using assms Entry_step_own [of p tid] by auto
next
  case False
  then show ?thesis using assms by (auto simp: Entry_step_other Entry_step_not_running)
qed

lemma Entry_step_wx_destroy:
  "wx_destroy (heap (Entry_step tid p) ! t) = wx_destroy (heap p ! t)"
proof (cases "t = tid \<and> IsRunning p tid")
  case True
  then show ?thesis using Entry_step_own [of p tid] by auto
next
  case False
  then show ?thesis by (auto simp: Entry_step_other Entry_step_not_running)
qed

lemma Entry_step_logs:
  "prefix (posted p) (posted (Entry_step tid p))"
  "prefix (executed p) (executed (Entry_step tid p))"
  "prefix (aborted p) (aborted (Entry_step tid p))"
  "prefix (deleted p) (deleted (Entry_step tid p))"
  by (cases "IsRunning p tid"; cases "pc (heap p ! tid)";
      simp add: Entry_defs split: option.splits list.splits)+

lemma Entry_step_queue: "suffix (m_TaskQueue (Entry_step tid p)) (m_TaskQueue p)"
  by (cases "IsRunning p tid"; cases "pc (heap p ! tid)";
      simp add: Entry_defs suffix_ConsI split: option.splits list.splits)

lemma quiet_nth:
  "quiet p =
     (\<forall>t < length (heap p).
        wx_state (heap p ! t) = STATE_RUNNING \<longrightarrow> m_Abort (heap p ! t) \<or> wx_destroy (heap p ! t))"
  by (simp add: quiet_def list_all_length)

lemma Entry_step_quiet:
  assumes "quiet p"
  shows "quiet (Entry_step tid p)"
  unfolding quiet_nth
proof (intro allI impI)
  fix t
  assume t: "t < length (heap (Entry_step tid p))"
    and r: "wx_state (heap (Entry_step tid p) ! t) = STATE_RUNNING"
  from r Entry_step_wx_state [of tid p t] have "wx_state (heap p ! t) = STATE_RUNNING" by auto
  with assms t have "m_Abort (heap p ! t) \<or> wx_destroy (heap p ! t)" by (simp add: quiet_nth)
  then show "m_Abort (heap (Entry_step tid p) ! t) \<or> wx_destroy (heap (Entry_step tid p) ! t)"
    by (auto simp: Entry_step_wx_destroy intro: Entry_step_m_Abort)
qed

lemma Entry_step_quiet_executed:
  assumes "quiet p"
  shows "executed (Entry_step tid p) = executed p"
proof (cases "IsRunning p tid")
  case False
  then show ?thesis by (simp add: Entry_step_not_running)
next
  case True
  with assms have "m_Abort (heap p ! tid) \<or> wx_destroy (heap p ! tid)"
    by (simp add: quiet_nth IsRunning_def)
  with True show ?thesis
    by (cases "pc (heap p ! tid)";
        auto simp: Entry_defs split: option.splits list.splits)
qed

lemma Entry_step_live_in_pool:
  assumes "live_in_pool p"
  shows "live_in_pool (Entry_step tid p)"
  unfolding live_in_pool_def
proof (intro allI impI)
  fix t
  assume t: "t < length (heap (Entry_step tid p))"
    and r: "wx_state (heap (Entry_step tid p) ! t) = STATE_RUNNING"
  from r Entry_step_wx_state [of tid p t] have "wx_state (heap p ! t) = STATE_RUNNING" by auto
  with assms t have "m_Abort (heap p ! t) \<or> wx_destroy (heap p ! t) \<or> t \<in> set (m_Threads p)"
    by (simp add: live_in_pool_def)
  then show "m_Abort (heap (Entry_step tid p) ! t) \<or> wx_destroy (heap (Entry_step tid p) ! t)
      \<or> t \<in> set (m_Threads (Entry_step tid p))"
    by (auto simp: Entry_step_wx_destroy intro: Entry_step_m_Abort)
qed

lemma length_filter_update:
  "i < length xs \<Longrightarrow>
     int (length (filter P (xs[i := x]))) =
       int (length (filter P xs)) - (if P (xs ! i) then 1 else 0) + (if P x then 1 else 0)"
proof (induction xs arbitrary: i)
  case Nil
  then show ?case by simp
next
  case (Cons y ys)
  show ?case
  proof (cases i)
    case 0
    then show ?thesis by simp
  next
    case (Suc j)
    with Cons.prems have "j < length ys" by simp
    from Cons.IH [OF this] Suc show ?thesis by (auto split: if_splits)
  qed
qed

lemma list_all_update:
  "list_all P xs \<Longrightarrow> P x \<Longrightarrow> list_all P (xs[i := x])"
  by (induction xs arbitrary: i) (auto split: nat.splits)

lemma Entry_step_tracking:
  assumes "in_flight_iff_busy p" "fetched_task p"
  shows "in_flight_iff_busy (Entry_step tid p) \<and> fetched_task (Entry_step tid p)"
proof (cases "IsRunning p tid")
  case False
  then show ?thesis using assms by (simp add: Entry_step_not_running)
next
  case True
  then have t: "tid < length (heap p)" by (simp add: IsRunning_def)
  from assms t have own:
    "(m_pTask (heap p ! tid) \<noteq> None) = (State_of (pc (heap p ! tid)) = Busy)"
    "pc (heap p ! tid) = MarkBusy \<longrightarrow> task (elem (heap p ! tid)) \<noteq> None"
    by (simp_all add: in_flight_iff_busy_def fetched_task_def list_all_length)
  from assms have all:
    "list_all (\<lambda>th. (m_pTask th \<noteq> None) = (State_of (pc th) = Busy)) (heap p)"
    "list_all (\<lambda>th. pc th = MarkBusy \<longrightarrow> task (elem th) \<noteq> None) (heap p)"
    "m_Counter p = int (length (filter (\<lambda>th. State_of (pc th) = Busy) (heap p)))"
    by (simp_all add: in_flight_iff_busy_def fetched_task_def busy_workers_def)
  show ?thesis
    using True t own all
    by (cases "pc (heap p ! tid)";
        simp add: Entry_defs in_flight_iff_busy_def fetched_task_def busy_workers_def
          length_filter_update list_all_update
          split: option.splits list.splits)
qed


section \<open>Abort, Kill, Run and allocation of a worker\<close>

lemma Abort_fields [simp]:
  "m_pOwner (Abort tid p) = m_pOwner p"
  "m_ID (Abort tid p) = m_ID p"
  "m_Done (Abort tid p) = m_Done p"
  "m_Batching (Abort tid p) = m_Batching p"
  "m_Counter (Abort tid p) = m_Counter p"
  "m_Aborting (Abort tid p) = m_Aborting p"
  "m_ConcurrentThreads (Abort tid p) = m_ConcurrentThreads p"
  "m_Threads (Abort tid p) = m_Threads p"
  "m_TaskQueue (Abort tid p) = m_TaskQueue p"
  "posted (Abort tid p) = posted p"
  "executed (Abort tid p) = executed p"
  "deleted (Abort tid p) = deleted p"
  "slept (Abort tid p) = slept p"
  "sched (Abort tid p) = sched p"
  "length (heap (Abort tid p)) = length (heap p)"
  by (simp_all add: Abort_def Let_def split: option.splits)

lemma Abort_heap:
  "heap (Abort tid p) = (heap p)[tid := (heap p ! tid)\<lparr>m_Abort := True\<rparr>]"
  "aborted (Abort tid p) =
     aborted p @ (case m_pTask (heap p ! tid) of Some t \<Rightarrow> [t] | None \<Rightarrow> [])"
  by (simp_all add: Abort_def Let_def split: option.splits)

lemma Abort_m_pTask: "m_pTask (heap (Abort tid p) ! t) = m_pTask (heap p ! t)"
  by (cases "tid < length (heap p)"; cases "t = tid"; simp add: Abort_heap list_update_beyond)

lemma Kill_fields [simp]:
  "m_pOwner (wxThread_Kill tid p) = m_pOwner p"
  "m_ID (wxThread_Kill tid p) = m_ID p"
  "m_Done (wxThread_Kill tid p) = m_Done p"
  "m_Batching (wxThread_Kill tid p) = m_Batching p"
  "m_Counter (wxThread_Kill tid p) = m_Counter p"
  "m_Aborting (wxThread_Kill tid p) = m_Aborting p"
  "m_ConcurrentThreads (wxThread_Kill tid p) = m_ConcurrentThreads p"
  "m_Threads (wxThread_Kill tid p) = m_Threads p"
  "m_TaskQueue (wxThread_Kill tid p) = m_TaskQueue p"
  "posted (wxThread_Kill tid p) = posted p"
  "executed (wxThread_Kill tid p) = executed p"
  "aborted (wxThread_Kill tid p) = aborted p"
  "deleted (wxThread_Kill tid p) = deleted p"
  "slept (wxThread_Kill tid p) = slept p"
  "sched (wxThread_Kill tid p) = sched p"
  "length (heap (wxThread_Kill tid p)) = length (heap p)"
  by (simp_all add: wxThread_Kill_def)

lemma Kill_heap:
  "heap (wxThread_Kill tid p) = (heap p)[tid := (heap p ! tid)\<lparr>wx_state := STATE_KILLED\<rparr>]"
  by (simp add: wxThread_Kill_def)

lemma Run_heap:
  "heap (wxThread_Run tid p) =
     (heap p)[tid := (if wx_state (heap p ! tid) = STATE_CREATED
                      then (heap p ! tid)\<lparr>wx_state := STATE_RUNNING\<rparr> else heap p ! tid)]"
  "m_Counter (wxThread_Run tid p) = m_Counter p"
  "m_TaskQueue (wxThread_Run tid p) = m_TaskQueue p"
  "posted (wxThread_Run tid p) = posted p"
  "executed (wxThread_Run tid p) = executed p"
  by (simp_all add: wxThread_Run_def)

text \<open>
  The invariants below speak of each worker object on its own. A write to one
  object that keeps the object's part of the invariant keeps the invariant.
\<close>

lemma quiet_update:
  "quiet p \<Longrightarrow> heap q = (heap p)[tid := th] \<Longrightarrow>
     (wx_state th = STATE_RUNNING \<longrightarrow> m_Abort th \<or> wx_destroy th) \<Longrightarrow> quiet q"
  by (simp add: quiet_def list_all_update)

lemma quiet_heap: "heap q = heap p \<Longrightarrow> quiet q = quiet p"
  by (simp add: quiet_def)

lemma quiet_own:
  "quiet p \<Longrightarrow> tid < length (heap p) \<Longrightarrow> wx_state (heap p ! tid) = STATE_RUNNING \<Longrightarrow>
     m_Abort (heap p ! tid) \<or> wx_destroy (heap p ! tid)"
  by (simp add: quiet_nth)

lemma Abort_quiet: "quiet p \<Longrightarrow> quiet (Abort tid p)"
  by (rule quiet_update [where tid = tid and th = "(heap p ! tid)\<lparr>m_Abort := True\<rparr>"])
     (simp_all add: Abort_heap)

lemma Kill_quiet: "quiet p \<Longrightarrow> quiet (wxThread_Kill tid p)"
  by (rule quiet_update [where tid = tid and th = "(heap p ! tid)\<lparr>wx_state := STATE_KILLED\<rparr>"])
     (simp_all add: Kill_heap)

lemma alloc_thread_quiet: "quiet p \<Longrightarrow> quiet (alloc_thread p)"
  by (simp add: alloc_thread_eq quiet_def fresh_worker_def PrivateThread_new_def)

lemma quiet_live_in_pool: "quiet p \<Longrightarrow> live_in_pool p"
  by (auto simp: quiet_nth live_in_pool_def)

lemma tracking_update:
  assumes "in_flight_iff_busy p \<and> fetched_task p"
    and "heap q = (heap p)[tid := th]" and "m_Counter q = m_Counter p"
    and "m_pTask th = m_pTask (heap p ! tid)" "pc th = pc (heap p ! tid)"
        "elem th = elem (heap p ! tid)"
  shows "in_flight_iff_busy q \<and> fetched_task q"
proof (cases "tid < length (heap p)")
  case False
  with assms show ?thesis
    by (simp add: in_flight_iff_busy_def fetched_task_def busy_workers_def list_update_beyond)
next
  case True
  with assms(1) have own:
    "(m_pTask (heap p ! tid) \<noteq> None) = (State_of (pc (heap p ! tid)) = Busy)"
    "pc (heap p ! tid) = MarkBusy \<longrightarrow> task (elem (heap p ! tid)) \<noteq> None"
    by (simp_all add: in_flight_iff_busy_def fetched_task_def list_all_length)
  with assms True show ?thesis
    by (simp add: in_flight_iff_busy_def fetched_task_def busy_workers_def
        length_filter_update list_all_update)
qed

lemma tracking_heap:
  "heap q = heap p \<Longrightarrow> m_Counter q = m_Counter p \<Longrightarrow>
     (in_flight_iff_busy q \<and> fetched_task q) = (in_flight_iff_busy p \<and> fetched_task p)"
  by (simp add: in_flight_iff_busy_def fetched_task_def busy_workers_def)

lemma Abort_tracking:
  "in_flight_iff_busy p \<and> fetched_task p \<Longrightarrow>
     in_flight_iff_busy (Abort tid p) \<and> fetched_task (Abort tid p)"
  by (rule tracking_update [where tid = tid and th = "(heap p ! tid)\<lparr>m_Abort := True\<rparr>"])
     (simp_all add: Abort_heap)

lemma Kill_tracking:
  "in_flight_iff_busy p \<and> fetched_task p \<Longrightarrow>
     in_flight_iff_busy (wxThread_Kill tid p) \<and> fetched_task (wxThread_Kill tid p)"
  by (rule tracking_update [where tid = tid and th = "(heap p ! tid)\<lparr>wx_state := STATE_KILLED\<rparr>"])
     (simp_all add: Kill_heap)

lemma Run_tracking:
  "in_flight_iff_busy p \<and> fetched_task p \<Longrightarrow>
     in_flight_iff_busy (wxThread_Run tid p) \<and> fetched_task (wxThread_Run tid p)"
  by (rule tracking_update [where tid = tid and
        th = "(if wx_state (heap p ! tid) = STATE_CREATED
              then (heap p ! tid)\<lparr>wx_state := STATE_RUNNING\<rparr> else heap p ! tid)"])
     (simp_all add: Run_heap)

lemma alloc_thread_tracking:
  "in_flight_iff_busy p \<and> fetched_task p \<Longrightarrow>
     in_flight_iff_busy (alloc_thread p) \<and> fetched_task (alloc_thread p)"
  by (simp add: alloc_thread_eq in_flight_iff_busy_def fetched_task_def busy_workers_def
      fresh_worker_def PrivateThread_new_def)

text \<open>The abort loop of \<^verbatim>\<open>FreeThreads\<close> (lines 288-292).\<close>

lemma fold_Abort_heap:
  "length (heap (fold Abort xs p)) = length (heap p) \<and>
   (\<forall>t < length (heap p).
      heap (fold Abort xs p) ! t =
        (if t \<in> set xs then (heap p ! t)\<lparr>m_Abort := True\<rparr> else heap p ! t))"
proof (induction xs arbitrary: p)
  case Nil
  show ?case by simp
next
  case (Cons x xs)
  have len: "length (heap (Abort x p)) = length (heap p)" by simp
  have one: "heap (Abort x p) ! t =
               (if t = x then (heap p ! t)\<lparr>m_Abort := True\<rparr> else heap p ! t)"
    if "t < length (heap p)" for t
    using that by (simp add: Abort_heap nth_list_update)
  from Cons.IH [of "Abort x p"] len have IH:
    "length (heap (fold Abort xs (Abort x p))) = length (heap p)"
    "\<And>t. t < length (heap p) \<Longrightarrow> heap (fold Abort xs (Abort x p)) ! t =
        (if t \<in> set xs then (heap (Abort x p) ! t)\<lparr>m_Abort := True\<rparr> else heap (Abort x p) ! t)"
    by simp_all
  show ?case
  proof (intro conjI allI impI)
    show "length (heap (fold Abort (x # xs) p)) = length (heap p)" using IH(1) by simp
  next
    fix t assume t: "t < length (heap p)"
    show "heap (fold Abort (x # xs) p) ! t =
        (if t \<in> set (x # xs) then (heap p ! t)\<lparr>m_Abort := True\<rparr> else heap p ! t)"
      using IH(2) [OF t] one [OF t] by (cases "t = x"; cases "t \<in> set xs"; simp)
  qed
qed

lemma fold_Abort_aborted:
  "aborted (fold Abort xs p) =
     aborted p @ concat (map (\<lambda>tid. case m_pTask (heap p ! tid) of Some t \<Rightarrow> [t] | None \<Rightarrow> []) xs)"
proof (induction xs arbitrary: p)
  case Nil
  show ?case by simp
next
  case (Cons x xs)
  show ?case by (simp add: Cons.IH Abort_m_pTask Abort_heap(2))
qed

lemma fold_Abort_quiet:
  assumes "live_in_pool p"
  shows "quiet (fold Abort (m_Threads p) p)"
  unfolding quiet_nth
proof (intro allI impI)
  fix t
  assume t: "t < length (heap (fold Abort (m_Threads p) p))"
    and r: "wx_state (heap (fold Abort (m_Threads p) p) ! t) = STATE_RUNNING"
  from t have t': "t < length (heap p)" using fold_Abort_heap [of "m_Threads p" p] by simp
  then have nth: "heap (fold Abort (m_Threads p) p) ! t =
        (if t \<in> set (m_Threads p) then (heap p ! t)\<lparr>m_Abort := True\<rparr> else heap p ! t)"
    using fold_Abort_heap [of "m_Threads p" p] by blast
  show "m_Abort (heap (fold Abort (m_Threads p) p) ! t) \<or>
        wx_destroy (heap (fold Abort (m_Threads p) p) ! t)"
  proof (cases "t \<in> set (m_Threads p)")
    case True
    with nth show ?thesis by simp
  next
    case False
    with nth r have "wx_state (heap p ! t) = STATE_RUNNING" by simp
    with assms t' False have "m_Abort (heap p ! t) \<or> wx_destroy (heap p ! t)"
      unfolding live_in_pool_def by blast
    with nth False show ?thesis by simp
  qed
qed


section \<open>Stopping the workers\<close>

lemma IsRunning_Entry_step:
  "\<not> IsRunning p t \<Longrightarrow> \<not> IsRunning (Entry_step tid p) t"
  using Entry_step_wx_state [of tid p t] by (auto simp: IsRunning_def)

lemma IsRunning_Abort: "IsRunning (Abort tid p) t = IsRunning p t"
  by (cases "tid < length (heap p)"; cases "t = tid";
      simp add: IsRunning_def Abort_heap list_update_beyond)

lemma IsRunning_Kill:
  "IsRunning (wxThread_Kill tid p) t = (IsRunning p t \<and> t \<noteq> tid)"
  by (cases "tid < length (heap p)"; cases "t = tid";
      auto simp: IsRunning_def Kill_heap list_update_beyond)

lemma IsRunning_clock [simp]:
  "IsRunning (p\<lparr>slept := n\<rparr>) t = IsRunning p t"
  "IsRunning (p\<lparr>sched := s\<rparr>) t = IsRunning p t"
  "IsRunning (p\<lparr>m_Threads := ts\<rparr>) t = IsRunning p t"
  by (simp_all add: IsRunning_def)

lemma slept_run_workers: "slept (run_workers this ws p) = slept p"
  by (rule run_workers_preserves [where I = "\<lambda>q. slept q = slept p"]) simp_all

lemma slept_wxMilliSleep: "slept (wxMilliSleep this ms p) = slept p + ms"
  by (cases "sched p") (simp_all add: wxMilliSleep_def Let_def slept_run_workers)

text \<open>Neither a move of a worker nor an abort kills a thread or revives a killed one.\<close>

lemma killed_Entry_step:
  "(wx_state (heap (Entry_step tid p) ! t) = STATE_KILLED) = (wx_state (heap p ! t) = STATE_KILLED)"
  using Entry_step_wx_state [of tid p t] by auto

lemma killed_Abort:
  "(wx_state (heap (Abort tid p) ! t) = STATE_KILLED) = (wx_state (heap p ! t) = STATE_KILLED)"
  by (cases "tid < length (heap p)"; cases "t = tid"; simp add: Abort_heap list_update_beyond)

lemma killed_wxMilliSleep:
  "(wx_state (heap (wxMilliSleep this ms p) ! t) = STATE_KILLED) =
   (wx_state (heap p ! t) = STATE_KILLED)"
  by (rule wxMilliSleep_preserves
        [where I = "\<lambda>q. (wx_state (heap q ! t) = STATE_KILLED) = (wx_state (heap p ! t) = STATE_KILLED)"])
     (simp_all add: killed_Entry_step)

text \<open>
  The loop that stops one worker (lines 309-324), started with the value \<open>count\<close>
  of its counter: it sleeps at most \<open>11 - count\<close> times one millisecond, the
  worker does not run afterwards, and when the loop killed the worker it has gone
  through all these rounds.
\<close>

lemma stop_loop_bounded:
  "count \<le> 10 \<Longrightarrow>
     slept (stop_loop this tid count p) \<le> slept p + (11 - count) \<and>
     \<not> IsRunning (stop_loop this tid count p) tid \<and>
     (wx_state (heap (stop_loop this tid count p) ! tid) = STATE_KILLED \<and>
      wx_state (heap p ! tid) \<noteq> STATE_KILLED \<longrightarrow>
        slept (stop_loop this tid count p) = slept p + (11 - count))"
proof (induction this tid count p rule: stop_loop.induct)
  case (1 this tid count p)
  let ?p1 = "wxMilliSleep this 1 (Abort tid p)"
  have sl: "slept ?p1 = slept p + 1" by (simp add: slept_wxMilliSleep)
  have kl: "(wx_state (heap ?p1 ! tid) = STATE_KILLED) = (wx_state (heap p ! tid) = STATE_KILLED)"
    by (simp add: killed_wxMilliSleep killed_Abort)
  show ?case
  proof (cases "IsRunning p tid")
    case False
    then show ?thesis by (simp add: stop_loop.simps [of this tid count p])
  next
    case run: True
    show ?thesis
    proof (cases "count + 1 > 10")
      case True
      with "1.prems" have c: "count = 10" by simp
      have eq: "stop_loop this tid count p =
                  (if IsRunning ?p1 tid then wxThread_Kill tid ?p1 else ?p1)"
        using run True by (simp add: stop_loop.simps [of this tid count p] Let_def)
      show ?thesis
      proof (cases "IsRunning ?p1 tid")
        case True
        then show ?thesis using eq sl c by (simp add: IsRunning_Kill)
      next
        case False
        then show ?thesis using eq sl c kl by simp
      qed
    next
      case False
      then have le: "count + 1 \<le> 10" by simp
      have eq: "stop_loop this tid count p = stop_loop this tid (count + 1) ?p1"
        using run False by (simp add: stop_loop.simps [of this tid count p])
      from "1.IH" [OF run False le] sl kl le show ?thesis
        unfolding eq by auto
    qed
  qed
qed

lemma stop_loop_not_running:
  "\<not> IsRunning p t \<Longrightarrow> \<not> IsRunning (stop_loop this tid count p) t"
  by (rule stop_loop_preserves [where I = "\<lambda>q. \<not> IsRunning q t"])
     (simp_all add: IsRunning_Entry_step IsRunning_Abort IsRunning_Kill)

lemma stop_all_not_running:
  "\<not> IsRunning p t \<Longrightarrow>
     \<not> IsRunning (fold (\<lambda>tid q. if Some tid = this then q else stop_loop this tid 0 q) xs p) t"
  by (rule fold_preserves [where I = "\<lambda>q. \<not> IsRunning q t"])
     (simp_all add: stop_loop_not_running)

lemma stop_all_stops:
  "t \<in> set xs \<Longrightarrow> Some t \<noteq> this \<Longrightarrow>
     \<not> IsRunning (fold (\<lambda>tid q. if Some tid = this then q else stop_loop this tid 0 q) xs p) t"
proof (induction xs arbitrary: p)
  case Nil
  then show ?case by simp
next
  case (Cons x xs)
  show ?case
  proof (cases "t = x")
    case True
    have "\<not> IsRunning (stop_loop this x 0 p) x" using stop_loop_bounded [of 0 this x p] by simp
    from stop_all_not_running [OF this] True Cons.prems show ?thesis by simp
  next
    case False
    with Cons show ?thesis by simp
  qed
qed


lemma m_Threads_fold_Abort: "m_Threads (fold Abort xs p) = m_Threads p"
  by (rule fold_preserves [where I = "\<lambda>q. m_Threads q = m_Threads p"]) simp_all


lemma m_Threads_wxMilliSleep: "m_Threads (wxMilliSleep this ms p) = m_Threads p"
  by (rule wxMilliSleep_preserves [where I = "\<lambda>q. m_Threads q = m_Threads p"]) simp_all

lemma FreeThreads_m_Threads: "m_Threads (FreeThreads this p) = []"
  by (simp add: FreeThreads_def Let_def)


lemma FreeThreads_stops:
  "t \<in> set (m_Threads p) \<Longrightarrow> Some t \<noteq> this \<Longrightarrow> \<not> IsRunning (FreeThreads this p) t"
  using stop_all_stops [of t "m_Threads p" this "wxMilliSleep this 21 (fold Abort (m_Threads p) p)"]
  by (simp add: FreeThreads_def Let_def m_Threads_wxMilliSleep m_Threads_fold_Abort)

lemma FreeThreads_not_running:
  "\<not> IsRunning p t \<Longrightarrow> \<not> IsRunning (FreeThreads this p) t"
  by (rule FreeThreads_preserves [where I = "\<lambda>q. \<not> IsRunning q t"])
     (simp_all add: IsRunning_Entry_step IsRunning_Abort IsRunning_Kill)


text \<open>What \<^verbatim>\<open>FreeThreads\<close> leaves alone.\<close>

lemma FreeThreads_fields:
  "m_pOwner (FreeThreads this p) = m_pOwner p \<and>
   m_ID (FreeThreads this p) = m_ID p \<and>
   m_Batching (FreeThreads this p) = m_Batching p \<and>
   m_Aborting (FreeThreads this p) = m_Aborting p \<and>
   m_ConcurrentThreads (FreeThreads this p) = m_ConcurrentThreads p \<and>
   length (heap (FreeThreads this p)) = length (heap p)"
  by (rule FreeThreads_preserves
        [where I = "\<lambda>q. m_pOwner q = m_pOwner p \<and> m_ID q = m_ID p \<and> m_Batching q = m_Batching p \<and>
           m_Aborting q = m_Aborting p \<and> m_ConcurrentThreads q = m_ConcurrentThreads p \<and>
           length (heap q) = length (heap p)"])
     simp_all









section \<open>Reallocation\<close>

lemma alloc_loop_not_running:
  "\<not> IsRunning p t \<Longrightarrow> \<not> IsRunning (alloc_loop k p) t"
  by (auto simp: alloc_loop_eq IsRunning_def nth_append fresh_worker_def PrivateThread_new_def)

lemma AllocThreads_result:
  "m_ConcurrentThreads (AllocThreads this p) = m_ConcurrentThreads p \<and>
   m_Aborting (AllocThreads this p) = m_Aborting p \<and>
   m_Threads (AllocThreads this p) =
     [length (heap p) ..< length (heap p) + nat (m_ConcurrentThreads p)] \<and>
   heap (AllocThreads this p) =
     heap (FreeThreads this p) @ replicate (nat (m_ConcurrentThreads p)) fresh_worker \<and>
   length (heap (FreeThreads this p)) = length (heap p)"
  using FreeThreads_fields [of this p]
  by (simp add: AllocThreads_def Let_def alloc_loop_eq FreeThreads_m_Threads)

lemma AllocThreads_stops:
  "t \<in> set (m_Threads p) \<Longrightarrow> Some t \<noteq> this \<Longrightarrow> \<not> IsRunning (AllocThreads this p) t"
  unfolding AllocThreads_def Let_def
  by (rule alloc_loop_not_running [OF FreeThreads_stops])

text \<open>
  C7. \<^verbatim>\<open>SetConcurrentThreads\<close> resolves the argument \<open>-1\<close> to the CPU count, and to 1
  when the CPU count is itself \<open>-1\<close> (unknown); any other argument is the resolved
  number as it stands. Whatever the argument, afterwards no worker of the old
  set runs (the calling thread excepted), and \<^verbatim>\<open>m_Threads\<close> holds newly allocated
  workers only, all of them fresh, as many as the resolved number says (none
  when that number is zero or negative).
\<close>

theorem SetConcurrentThreads_reallocates:
  "m_ConcurrentThreads (SetConcurrentThreads cpu this n p) =
     (if n = - 1 then (if cpu = - 1 then 1 else cpu) else n) \<and>
   m_Threads (SetConcurrentThreads cpu this n p) =
     [length (heap p) ..<
      length (heap p) + nat (m_ConcurrentThreads (SetConcurrentThreads cpu this n p))] \<and>
   length (heap (SetConcurrentThreads cpu this n p)) =
     length (heap p) + nat (m_ConcurrentThreads (SetConcurrentThreads cpu this n p)) \<and>
   (\<forall>t \<in> set (m_Threads (SetConcurrentThreads cpu this n p)).
      heap (SetConcurrentThreads cpu this n p) ! t = fresh_worker) \<and>
   (\<forall>t \<in> set (m_Threads p). Some t \<noteq> this \<longrightarrow> \<not> IsRunning (SetConcurrentThreads cpu this n p) t)"
proof -
  let ?M = "if n = - 1 then (if cpu = - 1 then 1 else cpu) else n"
  let ?p2 = "p\<lparr>m_ConcurrentThreads := ?M\<rparr>"
  have eq: "SetConcurrentThreads cpu this n p = AllocThreads this ?p2"
    by (simp add: SetConcurrentThreads_def Let_def)
  from AllocThreads_result [of this ?p2] have r:
    "m_ConcurrentThreads (AllocThreads this ?p2) = ?M"
    "m_Threads (AllocThreads this ?p2) = [length (heap p) ..< length (heap p) + nat ?M]"
    "heap (AllocThreads this ?p2) = heap (FreeThreads this ?p2) @ replicate (nat ?M) fresh_worker"
    "length (heap (FreeThreads this ?p2)) = length (heap p)"
    by simp_all
  have fresh: "\<forall>t \<in> set (m_Threads (AllocThreads this ?p2)). heap (AllocThreads this ?p2) ! t = fresh_worker"
    unfolding r(2) r(3) using r(4) by (auto simp: nth_append)
  have old: "\<forall>t \<in> set (m_Threads p). Some t \<noteq> this \<longrightarrow> \<not> IsRunning (AllocThreads this ?p2) t"
    using AllocThreads_stops [of _ ?p2 this] by simp
  have len: "length (heap (AllocThreads this ?p2)) = length (heap p) + nat ?M"
    unfolding r(3) using r(4) by simp
  show ?thesis unfolding eq using r(1) r(2) len fresh old by presburger
qed

theorem SetConcurrentThreads_reallocates_witness:
  "m_Threads (cbThreadPool_new 4 [] 7 42 2) = [0, 1] \<and>
   m_ConcurrentThreads (SetConcurrentThreads 4 None (- 1) (cbThreadPool_new 4 [] 7 42 2)) = 4 \<and>
   m_ConcurrentThreads (SetConcurrentThreads (- 1) None (- 1) (cbThreadPool_new 4 [] 7 42 2)) = 1 \<and>
   m_Threads (SetConcurrentThreads 4 None (- 1) (cbThreadPool_new 4 [] 7 42 2)) = [2, 3, 4, 5] \<and>
   heap (SetConcurrentThreads 4 None (- 1) (cbThreadPool_new 4 [] 7 42 2)) ! 2 = fresh_worker \<and>
   \<not> IsRunning (SetConcurrentThreads 4 None (- 1) (cbThreadPool_new 4 [] 7 42 2)) 0"
proof -
  have a: "m_Threads (cbThreadPool_new 4 [] 7 42 2) = [0, 1]"
    by (simp add: cbThreadPool_new_eq upt_rec)
  have b: "length (heap (cbThreadPool_new 4 [] 7 42 2)) = 2" by (simp add: cbThreadPool_new_eq)
  have c: "[2 ..< 6] = [2, 3, 4, 5::nat]" by (simp add: upt_rec)
  from SetConcurrentThreads_reallocates [of 4 None "- 1" "cbThreadPool_new 4 [] 7 42 2"]
    SetConcurrentThreads_reallocates [of "- 1" None "- 1" "cbThreadPool_new 4 [] 7 42 2"]
    a b c
  show ?thesis by simp
qed


section \<open>Properties kept by the public operations\<close>

lemma ClearTaskQueue_preserves:
  assumes del: "\<And>q t. I q \<Longrightarrow> I (q\<lparr>deleted := deleted q @ [t]\<rparr>)"
    and clearq: "\<And>q. I q \<Longrightarrow> I (q\<lparr>m_TaskQueue := []\<rparr>)"
    and p: "I p"
  shows "I (ClearTaskQueue p)"
proof -
  have "I (fold (\<lambda>e q. if autoDelete e then delete_task (task e) q else q) xs p)" for xs
    by (rule fold_preserves [where I = I, OF _ p])
       (simp add: delete_task_def del split: option.splits)
  then show ?thesis unfolding ClearTaskQueue_def by (rule clearq)
qed

lemma SetConcurrentThreads_preserves:
  assumes step: "\<And>q tid. I q \<Longrightarrow> I (Entry_step tid q)"
    and abort: "\<And>q tid. I q \<Longrightarrow> I (Abort tid q)"
    and kill: "\<And>q tid. I q \<Longrightarrow> IsRunning q tid \<Longrightarrow> I (wxThread_Kill tid q)"
    and clock: "\<And>q n. I q \<Longrightarrow> I (q\<lparr>slept := n\<rparr>)"
    and sch: "\<And>q s. I q \<Longrightarrow> I (q\<lparr>sched := s\<rparr>)"
    and clear: "\<And>q. I q \<Longrightarrow> I (q\<lparr>m_Threads := []\<rparr>)"
    and alloc: "\<And>q. I q \<Longrightarrow> I (alloc_thread q)"
    and conc: "\<And>q n. I q \<Longrightarrow> I (q\<lparr>m_ConcurrentThreads := n\<rparr>)"
    and p: "I p"
  shows "I (SetConcurrentThreads cpu this n p)"
proof -
  have "I (p\<lparr>m_ConcurrentThreads := (if n = - 1 then (if cpu = - 1 then 1 else cpu) else n)\<rparr>)"
    by (rule conc [OF p])
  from AllocThreads_preserves [where I = I and this = this, OF step abort kill clock sch clear
      alloc this]
  show ?thesis by (auto simp: SetConcurrentThreads_def Let_def split: if_splits)
qed

lemma AbortAllTasks_preserves:
  assumes step: "\<And>q tid. I q \<Longrightarrow> I (Entry_step tid q)"
    and abort: "\<And>q tid. I q \<Longrightarrow> I (Abort tid q)"
    and kill: "\<And>q tid. I q \<Longrightarrow> IsRunning q tid \<Longrightarrow> I (wxThread_Kill tid q)"
    and clock: "\<And>q n. I q \<Longrightarrow> I (q\<lparr>slept := n\<rparr>)"
    and sch: "\<And>q s. I q \<Longrightarrow> I (q\<lparr>sched := s\<rparr>)"
    and clear: "\<And>q. I q \<Longrightarrow> I (q\<lparr>m_Threads := []\<rparr>)"
    and alloc: "\<And>q. I q \<Longrightarrow> I (alloc_thread q)"
    and abrt: "\<And>q b. I q \<Longrightarrow> I (q\<lparr>m_Aborting := b\<rparr>)"
    and del: "\<And>q t. I q \<Longrightarrow> I (q\<lparr>deleted := deleted q @ [t]\<rparr>)"
    and clearq: "\<And>q. I q \<Longrightarrow> I (q\<lparr>m_TaskQueue := []\<rparr>)"
    and p: "I p"
  shows "I (AbortAllTasks this p)"
proof -
  have 1: "I (ClearTaskQueue (p\<lparr>m_Aborting := True\<rparr>))"
    by (rule ClearTaskQueue_preserves [where I = I, OF del clearq abrt [OF p]])
  have 2: "I (FreeThreads this (ClearTaskQueue (p\<lparr>m_Aborting := True\<rparr>)))"
    by (rule FreeThreads_preserves [where I = I, OF step abort kill clock sch clear 1])
  have 3: "I (AllocThreads this (FreeThreads this (ClearTaskQueue (p\<lparr>m_Aborting := True\<rparr>))))"
    by (rule AllocThreads_preserves [where I = I, OF step abort kill clock sch clear alloc 2])
  show ?thesis unfolding AbortAllTasks_def Let_def by (rule abrt [OF 3])
qed

lemma AddTask_preserves:
  assumes run: "\<And>q tid. I q \<Longrightarrow> \<not> m_Aborting q \<Longrightarrow> tid \<in> set (m_Threads q) \<Longrightarrow>
                  I (wxThread_Run tid q)"
    and enq: "\<And>q e. I q \<Longrightarrow> I (q\<lparr>m_TaskQueue := m_TaskQueue q @ [e], m_Done := False\<rparr>)"
    and del: "\<And>q t. I q \<Longrightarrow> I (q\<lparr>deleted := deleted q @ [t]\<rparr>)"
    and p: "I p"
  shows "I (snd (AddTask this tp d p))"
proof (cases "m_Aborting p")
  case True
  then show ?thesis using p del [OF p]
    by (simp add: AddTask_def delete_task_def split: option.splits)
next
  case False
  have "I (p\<lparr>m_TaskQueue := m_TaskQueue p @ [\<lparr>task = tp, autoDelete = d\<rparr>], m_Done := False\<rparr>)"
    by (rule enq [OF p])
  from this RunThreads_preserves [where I = I, OF run this] False
  show ?thesis by (simp add: AddTask_def Let_def)
qed

lemma perform_preserves:
  assumes step: "\<And>q tid. I q \<Longrightarrow> I (Entry_step tid q)"
    and abort: "\<And>q tid. I q \<Longrightarrow> I (Abort tid q)"
    and kill: "\<And>q tid. I q \<Longrightarrow> IsRunning q tid \<Longrightarrow> I (wxThread_Kill tid q)"
    and clock: "\<And>q n. I q \<Longrightarrow> I (q\<lparr>slept := n\<rparr>)"
    and sch: "\<And>q s. I q \<Longrightarrow> I (q\<lparr>sched := s\<rparr>)"
    and clear: "\<And>q. I q \<Longrightarrow> I (q\<lparr>m_Threads := []\<rparr>)"
    and alloc: "\<And>q. I q \<Longrightarrow> I (alloc_thread q)"
    and run: "\<And>q tid. I q \<Longrightarrow> \<not> m_Aborting q \<Longrightarrow> tid \<in> set (m_Threads q) \<Longrightarrow>
                  I (wxThread_Run tid q)"
    and conc: "\<And>q n. I q \<Longrightarrow> I (q\<lparr>m_ConcurrentThreads := n\<rparr>)"
    and abrt: "\<And>q b. I q \<Longrightarrow> I (q\<lparr>m_Aborting := b\<rparr>)"
    and batch: "\<And>q b. I q \<Longrightarrow> I (q\<lparr>m_Batching := b\<rparr>)"
    and enq: "\<And>q e. I q \<Longrightarrow> I (q\<lparr>m_TaskQueue := m_TaskQueue q @ [e], m_Done := False\<rparr>)"
    and del: "\<And>q t. I q \<Longrightarrow> I (q\<lparr>deleted := deleted q @ [t]\<rparr>)"
    and clearq: "\<And>q. I q \<Longrightarrow> I (q\<lparr>m_TaskQueue := []\<rparr>)"
    and p: "I p"
  shows "I (perform a p)"
proof (cases a)
  case (CallAddTask this tp d)
  then show ?thesis using AddTask_preserves [where I = I, OF run enq del p] by simp
next
  case CallBatchBegin
  then show ?thesis using batch [OF p] by (simp add: BatchBegin_def)
next
  case (CallBatchEnd this)
  then show ?thesis
    using RunThreads_preserves [where I = I, OF run batch [OF p]] by (simp add: BatchEnd_def)
next
  case (CallAbortAllTasks this)
  then show ?thesis
    using AbortAllTasks_preserves [where I = I, OF step abort kill clock sch clear alloc abrt del
        clearq p]
    by simp
next
  case (CallSetConcurrentThreads cpu this n)
  then show ?thesis
    using SetConcurrentThreads_preserves [where I = I, OF step abort kill clock sch clear alloc
        conc p]
    by simp
next
  case (WorkerMove tid)
  then show ?thesis using step [OF p] by simp
qed

text \<open>
  A property that holds of the empty pool the constructor starts from and that
  every write keeps holds of every state a run can reach.
\<close>

lemma reachable_invariant:
  assumes step: "\<And>q tid. I q \<Longrightarrow> I (Entry_step tid q)"
    and abort: "\<And>q tid. I q \<Longrightarrow> I (Abort tid q)"
    and kill: "\<And>q tid. I q \<Longrightarrow> IsRunning q tid \<Longrightarrow> I (wxThread_Kill tid q)"
    and clock: "\<And>q n. I q \<Longrightarrow> I (q\<lparr>slept := n\<rparr>)"
    and sch: "\<And>q s. I q \<Longrightarrow> I (q\<lparr>sched := s\<rparr>)"
    and clear: "\<And>q. I q \<Longrightarrow> I (q\<lparr>m_Threads := []\<rparr>)"
    and alloc: "\<And>q. I q \<Longrightarrow> I (alloc_thread q)"
    and run: "\<And>q tid. I q \<Longrightarrow> \<not> m_Aborting q \<Longrightarrow> tid \<in> set (m_Threads q) \<Longrightarrow>
                  I (wxThread_Run tid q)"
    and conc: "\<And>q n. I q \<Longrightarrow> I (q\<lparr>m_ConcurrentThreads := n\<rparr>)"
    and abrt: "\<And>q b. I q \<Longrightarrow> I (q\<lparr>m_Aborting := b\<rparr>)"
    and batch: "\<And>q b. I q \<Longrightarrow> I (q\<lparr>m_Batching := b\<rparr>)"
    and enq: "\<And>q e. I q \<Longrightarrow> I (q\<lparr>m_TaskQueue := m_TaskQueue q @ [e], m_Done := False\<rparr>)"
    and del: "\<And>q t. I q \<Longrightarrow> I (q\<lparr>deleted := deleted q @ [t]\<rparr>)"
    and clearq: "\<And>q. I q \<Longrightarrow> I (q\<lparr>m_TaskQueue := []\<rparr>)"
    and init: "\<And>owner ident sch.
        I \<lparr>m_pOwner = owner, m_ID = ident, m_Done = True, m_Batching = False, m_Counter = 0,
           m_Aborting = False, m_ConcurrentThreads = 0, m_Threads = [], m_TaskQueue = [],
           heap = [], posted = [], executed = [], aborted = [], deleted = [], slept = 0,
           sched = sch\<rparr>"
    and r: "reachable p"
  shows "I p"
  using r
proof (induction rule: reachable.induct)
  case (reachable_new cpu sch owner ident n)
  show ?case unfolding cbThreadPool_new_def
    by (rule SetConcurrentThreads_preserves [where I = I, OF step abort kill clock sch clear alloc
          conc init])
next
  case (reachable_perform p a)
  show ?case
    by (rule perform_preserves [where I = I, OF step abort kill clock sch clear alloc run conc
          abrt batch enq del clearq reachable_perform.IH])
qed


section \<open>Invariants of the runs\<close>

lemma reachable_run: "reachable p \<Longrightarrow> reachable (run acts p)"
  unfolding run_def
  by (rule fold_preserves [where I = reachable]) (simp_all add: reachable_perform)

lemma reachable_tracking:
  assumes "reachable p"
  shows "in_flight_iff_busy p \<and> fetched_task p"
proof (rule reachable_invariant [where I = "\<lambda>q. in_flight_iff_busy q \<and> fetched_task q", OF _ _ _ _ _ _ _ _ _ _ _ _ _ _ _ assms])
  fix q :: cbThreadPool and tid
  assume q: "in_flight_iff_busy q \<and> fetched_task q"
  show "in_flight_iff_busy (Entry_step tid q) \<and> fetched_task (Entry_step tid q)"
    using q Entry_step_tracking by blast
  show "in_flight_iff_busy (Abort tid q) \<and> fetched_task (Abort tid q)"
    using q by (rule Abort_tracking)
  show "in_flight_iff_busy (wxThread_Kill tid q) \<and> fetched_task (wxThread_Kill tid q)"
    using q by (rule Kill_tracking)
  show "in_flight_iff_busy (wxThread_Run tid q) \<and> fetched_task (wxThread_Run tid q)"
    using q by (rule Run_tracking)
  show "in_flight_iff_busy (alloc_thread q) \<and> fetched_task (alloc_thread q)"
    using q by (rule alloc_thread_tracking)
qed (simp_all add: in_flight_iff_busy_def fetched_task_def busy_workers_def)

text \<open>
  C8. In every state a run of the pool can reach, every worker holds a task
  reference exactly when it is busy, and the busy counter is the number of busy
  workers. A worker becomes busy in the one move (inside the counter lock) that
  stores the fetched, non-null task in \<^verbatim>\<open>m_pTask\<close> and increments the counter;
  \<^verbatim>\<open>Execute()\<close> is called only by a busy worker, in its next move, on the task
  stored; when \<^verbatim>\<open>Execute()\<close> has returned the worker becomes idle in the one move
  that clears \<^verbatim>\<open>m_pTask\<close> and decrements the counter.
\<close>

theorem in_flight_reference_iff_busy:
  "reachable p \<Longrightarrow>
     (\<forall>tid < length (heap p).
        (m_pTask (heap p ! tid) \<noteq> None) = (State_of (pc (heap p ! tid)) = Busy)) \<and>
     m_Counter p = int (busy_workers p) \<and>
     (\<forall>tid. IsRunning p tid \<and> pc (heap p ! tid) = MarkBusy \<longrightarrow>
        task (elem (heap p ! tid)) \<noteq> None \<and>
        m_pTask (heap (Entry_step tid p) ! tid) = task (elem (heap p ! tid)) \<and>
        m_Counter (Entry_step tid p) = m_Counter p + 1 \<and>
        executed (Entry_step tid p) = executed p \<and>
        pc (heap (Entry_step tid p) ! tid) = Launch) \<and>
     (\<forall>tid. executed (Entry_step tid p) \<noteq> executed p \<longrightarrow>
        pc (heap p ! tid) = Launch \<and>
        executed (Entry_step tid p) = executed p @ [the (m_pTask (heap p ! tid))] \<and>
        pc (heap (Entry_step tid p) ! tid) = InExecute) \<and>
     (\<forall>tid. IsRunning p tid \<and> pc (heap p ! tid) = InExecute \<longrightarrow>
        pc (heap (Entry_step tid p) ! tid) = MarkIdle \<and>
        m_pTask (heap (Entry_step tid p) ! tid) = m_pTask (heap p ! tid) \<and>
        m_Counter (Entry_step tid p) = m_Counter p) \<and>
     (\<forall>tid. IsRunning p tid \<and> pc (heap p ! tid) = MarkIdle \<longrightarrow>
        m_pTask (heap (Entry_step tid p) ! tid) = None \<and>
        m_Counter (Entry_step tid p) = m_Counter p - 1 \<and>
        pc (heap (Entry_step tid p) ! tid) = Dispose)"
proof -
  assume r: "reachable p"
  from reachable_tracking [OF r] have inv:
    "\<forall>tid < length (heap p).
        (m_pTask (heap p ! tid) \<noteq> None) = (State_of (pc (heap p ! tid)) = Busy)"
    "m_Counter p = int (busy_workers p)"
    "\<forall>tid < length (heap p). pc (heap p ! tid) = MarkBusy \<longrightarrow> task (elem (heap p ! tid)) \<noteq> None"
    by (simp_all add: in_flight_iff_busy_def fetched_task_def list_all_length)
  have busy: "\<forall>tid. IsRunning p tid \<and> pc (heap p ! tid) = MarkBusy \<longrightarrow>
        task (elem (heap p ! tid)) \<noteq> None \<and>
        m_pTask (heap (Entry_step tid p) ! tid) = task (elem (heap p ! tid)) \<and>
        m_Counter (Entry_step tid p) = m_Counter p + 1 \<and>
        executed (Entry_step tid p) = executed p \<and>
        pc (heap (Entry_step tid p) ! tid) = Launch"
    using inv(3) by (simp add: Entry_step_def IsRunning_def)
  have exec: "\<forall>tid. executed (Entry_step tid p) \<noteq> executed p \<longrightarrow>
        pc (heap p ! tid) = Launch \<and>
        executed (Entry_step tid p) = executed p @ [the (m_pTask (heap p ! tid))] \<and>
        pc (heap (Entry_step tid p) ! tid) = InExecute"
  proof (intro allI impI)
    fix tid assume ch: "executed (Entry_step tid p) \<noteq> executed p"
    have run: "IsRunning p tid"
    proof (rule ccontr)
      assume "\<not> IsRunning p tid"
      then have "Entry_step tid p = p" by (rule Entry_step_not_running)
      with ch show False by simp
    qed
    with ch show "pc (heap p ! tid) = Launch \<and>
        executed (Entry_step tid p) = executed p @ [the (m_pTask (heap p ! tid))] \<and>
        pc (heap (Entry_step tid p) ! tid) = InExecute"
      by (cases "pc (heap p ! tid)";
          simp add: Entry_defs IsRunning_def split: option.splits list.splits if_splits)
  qed
  have ret: "\<forall>tid. IsRunning p tid \<and> pc (heap p ! tid) = InExecute \<longrightarrow>
        pc (heap (Entry_step tid p) ! tid) = MarkIdle \<and>
        m_pTask (heap (Entry_step tid p) ! tid) = m_pTask (heap p ! tid) \<and>
        m_Counter (Entry_step tid p) = m_Counter p"
    by (simp add: Entry_step_def IsRunning_def goto_def)
  have idle: "\<forall>tid. IsRunning p tid \<and> pc (heap p ! tid) = MarkIdle \<longrightarrow>
        m_pTask (heap (Entry_step tid p) ! tid) = None \<and>
        m_Counter (Entry_step tid p) = m_Counter p - 1 \<and>
        pc (heap (Entry_step tid p) ! tid) = Dispose"
    by (simp add: Entry_step_def IsRunning_def)
  from inv(1) inv(2) busy exec ret idle show ?thesis by blast
qed

theorem in_flight_reference_iff_busy_witness:
  "reachable (run [CallAddTask None (Some 1) False, WorkerMove 0, WorkerMove 0, WorkerMove 0,
                   WorkerMove 0, WorkerMove 0]
                (cbThreadPool_new 4 [] 7 42 1)) \<and>
   IsRunning (run [CallAddTask None (Some 1) False, WorkerMove 0, WorkerMove 0, WorkerMove 0,
                   WorkerMove 0, WorkerMove 0]
                (cbThreadPool_new 4 [] 7 42 1)) 0 \<and>
   pc (heap (run [CallAddTask None (Some 1) False, WorkerMove 0, WorkerMove 0, WorkerMove 0,
                   WorkerMove 0, WorkerMove 0]
                (cbThreadPool_new 4 [] 7 42 1)) ! 0) = MarkBusy \<and>
   m_pTask (heap (run [CallAddTask None (Some 1) False, WorkerMove 0, WorkerMove 0, WorkerMove 0,
                   WorkerMove 0, WorkerMove 0]
                (cbThreadPool_new 4 [] 7 42 1)) ! 0) = None \<and>
   m_Counter (run [CallAddTask None (Some 1) False, WorkerMove 0, WorkerMove 0, WorkerMove 0,
                   WorkerMove 0, WorkerMove 0]
                (cbThreadPool_new 4 [] 7 42 1)) = 0 \<and>
   m_pTask (heap (Entry_step 0 (run [CallAddTask None (Some 1) False, WorkerMove 0, WorkerMove 0,
                   WorkerMove 0, WorkerMove 0, WorkerMove 0]
                (cbThreadPool_new 4 [] 7 42 1))) ! 0) = Some 1 \<and>
   m_Counter (Entry_step 0 (run [CallAddTask None (Some 1) False, WorkerMove 0, WorkerMove 0,
                   WorkerMove 0, WorkerMove 0, WorkerMove 0]
                (cbThreadPool_new 4 [] 7 42 1))) = 1"
proof -
  let ?p = "run [CallAddTask None (Some 1) False, WorkerMove 0, WorkerMove 0, WorkerMove 0,
                 WorkerMove 0, WorkerMove 0]
              (cbThreadPool_new 4 [] 7 42 1)"
  have r: "reachable ?p" by (rule reachable_run [OF reachable_new])
  have a: "IsRunning ?p 0" by code_simp
  have b: "pc (heap ?p ! 0) = MarkBusy" by code_simp
  have c: "task (elem (heap ?p ! 0)) = Some 1" by code_simp
  have d: "m_Counter ?p = 0" by code_simp
  have e: "busy_workers ?p = 0" by code_simp
  from in_flight_reference_iff_busy [OF r] a b c d e r show ?thesis
    by (auto simp: IsRunning_def)
qed


section \<open>The queue and the done flag\<close>

lemma AddTasks_not_aborting: "m_Aborting (AddTasks this es p) = m_Aborting p"
  by (induction es arbitrary: p) simp_all

text \<open>
  C4. The queue is first in, first out. On a pool that is not aborting,
  submitting the elements \<open>es\<close> one after the other appends them to the queue in
  that order, and as many calls of \<^verbatim>\<open>GetNextElement\<close> as the queue is long return
  what was queued before followed by \<open>es\<close>, in order, and leave the queue empty.
  \<^verbatim>\<open>GetNextElement\<close> removes and returns the head; on an empty queue it returns a
  null task and changes nothing, and a worker that fetches from the empty queue
  leaves its loop: its thread exits. A worker that fetches from a queue whose
  head holds a task takes the head and goes on to mark itself busy.
\<close>

theorem task_queue_fifo:
  "\<not> m_Aborting p \<Longrightarrow>
     m_TaskQueue (AddTasks this es p) = m_TaskQueue p @ es \<and>
     fst (GetNextElements (length (m_TaskQueue p) + length es) (AddTasks this es p)) =
       m_TaskQueue p @ es \<and>
     m_TaskQueue (snd (GetNextElements (length (m_TaskQueue p) + length es) (AddTasks this es p))) = [] \<and>
     (m_TaskQueue q = [] \<longrightarrow>
        task (fst (GetNextElement e q)) = None \<and> snd (GetNextElement e q) = q) \<and>
     (\<forall>x xs. m_TaskQueue q = x # xs \<longrightarrow> GetNextElement e q = (x, q\<lparr>m_TaskQueue := xs\<rparr>)) \<and>
     (IsRunning q tid \<and> pc (heap q ! tid) = Fetch \<and> m_TaskQueue q = [] \<longrightarrow>
        wx_state (heap (Entry_step tid q) ! tid) = STATE_EXITED \<and>
        pc (heap (Entry_step tid q) ! tid) = Returned \<and>
        m_TaskQueue (Entry_step tid q) = []) \<and>
     (\<forall>x xs. IsRunning q tid \<and> pc (heap q ! tid) = Fetch \<and> m_TaskQueue q = x # xs \<and>
        task x \<noteq> None \<longrightarrow>
        elem (heap (Entry_step tid q) ! tid) = x \<and>
        pc (heap (Entry_step tid q) ! tid) = MarkBusy \<and>
        wx_state (heap (Entry_step tid q) ! tid) = STATE_RUNNING \<and>
        m_TaskQueue (Entry_step tid q) = xs)"
proof -
  assume na: "\<not> m_Aborting p"
  have a: "m_TaskQueue (AddTasks this es p) = m_TaskQueue p @ es"
    using na by (rule AddTasks_queue)
  have "m_TaskQueue (AddTasks this es p) = (m_TaskQueue p @ es) @ []" using a by simp
  from GetNextElements_prefix [OF this]
  have b: "GetNextElements (length (m_TaskQueue p) + length es) (AddTasks this es p) =
             (m_TaskQueue p @ es, (AddTasks this es p)\<lparr>m_TaskQueue := []\<rparr>)"
    by simp
  have c: "m_TaskQueue q = [] \<longrightarrow>
        task (fst (GetNextElement e q)) = None \<and> snd (GetNextElement e q) = q"
    by (simp add: GetNextElement_def)
  have d: "\<forall>x xs. m_TaskQueue q = x # xs \<longrightarrow> GetNextElement e q = (x, q\<lparr>m_TaskQueue := xs\<rparr>)"
    by (simp add: GetNextElement_def)
  have f: "IsRunning q tid \<and> pc (heap q ! tid) = Fetch \<and> m_TaskQueue q = [] \<longrightarrow>
        wx_state (heap (Entry_step tid q) ! tid) = STATE_EXITED \<and>
        pc (heap (Entry_step tid q) ! tid) = Returned \<and>
        m_TaskQueue (Entry_step tid q) = []"
    by (simp add: Entry_defs IsRunning_def cbTaskElement_default_def)
  have g: "\<forall>x xs. IsRunning q tid \<and> pc (heap q ! tid) = Fetch \<and> m_TaskQueue q = x # xs \<and>
        task x \<noteq> None \<longrightarrow>
        elem (heap (Entry_step tid q) ! tid) = x \<and>
        pc (heap (Entry_step tid q) ! tid) = MarkBusy \<and>
        wx_state (heap (Entry_step tid q) ! tid) = STATE_RUNNING \<and>
        m_TaskQueue (Entry_step tid q) = xs"
    by (auto simp: Entry_defs IsRunning_def)
  have b1: "fst (GetNextElements (length (m_TaskQueue p) + length es) (AddTasks this es p)) =
       m_TaskQueue p @ es"
    using b by simp
  have b2: "m_TaskQueue (snd (GetNextElements (length (m_TaskQueue p) + length es)
              (AddTasks this es p))) = []"
    using b by simp
  from a b1 b2 c d f g show ?thesis by blast
qed

theorem task_queue_fifo_witness:
  "\<not> m_Aborting (cbThreadPool_new 4 [] 7 42 1) \<and>
   fst (GetNextElements 3
          (AddTasks None [\<lparr>task = Some 1, autoDelete = False\<rparr>, \<lparr>task = Some 2, autoDelete = True\<rparr>,
                          \<lparr>task = Some 3, autoDelete = False\<rparr>]
             (cbThreadPool_new 4 [] 7 42 1))) =
     [\<lparr>task = Some 1, autoDelete = False\<rparr>, \<lparr>task = Some 2, autoDelete = True\<rparr>,
      \<lparr>task = Some 3, autoDelete = False\<rparr>] \<and>
   task (fst (GetNextElement cbTaskElement_default (cbThreadPool_new 4 [] 7 42 1))) = None"
proof -
  have h: "\<not> m_Aborting (cbThreadPool_new 4 [] 7 42 1)" by (simp add: cbThreadPool_new_eq)
  have q: "m_TaskQueue (cbThreadPool_new 4 [] 7 42 1) = []" by (simp add: cbThreadPool_new_eq)
  from task_queue_fifo [OF h, of None
      "[\<lparr>task = Some 1, autoDelete = False\<rparr>, \<lparr>task = Some 2, autoDelete = True\<rparr>,
        \<lparr>task = Some 3, autoDelete = False\<rparr>]" "cbThreadPool_new 4 [] 7 42 1" cbTaskElement_default 0]
    h q
  show ?thesis by (simp add: numeral_3_eq_3)
qed

lemma OnThreadTaskDone_eq:
  "OnThreadTaskDone p =
     p\<lparr>posted := posted p @ cbEVT_THREADTASK_ENDED (m_ID p) #
                   (if m_TaskQueue p = [] \<and> m_Counter p = 0
                    then [cbEVT_THREADTASK_ALLDONE (m_ID p)] else []),
       m_Done := (m_Done p \<or> (m_TaskQueue p = [] \<and> m_Counter p = 0))\<rparr>"
  by (simp add: OnThreadTaskDone_def Let_def)

text \<open>
  C1, as far as the code goes. The constructor returns a pool in which the done
  flag is set, the queue is empty and the counter is zero, so the equivalence
  holds. \<^verbatim>\<open>AddTask\<close> and \<^verbatim>\<open>OnThreadTaskDone\<close> keep the equivalence, and each
  writes the flag as the equivalence asks:
  \<^item> an accepted \<^verbatim>\<open>AddTask\<close> clears the flag and leaves the queue non-empty, so
    the equivalence holds afterwards whatever held before; a rejected one leaves
    flag, queue and counter as they are;
  \<^item> \<^verbatim>\<open>OnThreadTaskDone\<close> leaves queue and counter as they are, and the flag is
    set afterwards exactly when it was set before or the queue is empty and the
    counter is zero: so the handler sets the flag when, and only when, it finds
    the queue empty and the counter zero, and then the equivalence holds
    afterwards whatever held before.
\<close>

theorem done_equivalence_kept:
  "done_equivalence (cbThreadPool_new cpu sch owner ident n) \<and>
   m_Done (cbThreadPool_new cpu sch owner ident n) \<and>
   (\<not> m_Aborting p \<longrightarrow>
      \<not> m_Done (snd (AddTask this tp del p)) \<and>
      m_TaskQueue (snd (AddTask this tp del p)) \<noteq> [] \<and>
      done_equivalence (snd (AddTask this tp del p))) \<and>
   (m_Aborting p \<longrightarrow>
      m_Done (snd (AddTask this tp del p)) = m_Done p \<and>
      m_TaskQueue (snd (AddTask this tp del p)) = m_TaskQueue p \<and>
      m_Counter (snd (AddTask this tp del p)) = m_Counter p) \<and>
   (done_equivalence p \<longrightarrow> done_equivalence (snd (AddTask this tp del p))) \<and>
   m_Done (OnThreadTaskDone p) = (m_Done p \<or> (m_TaskQueue p = [] \<and> m_Counter p = 0)) \<and>
   m_TaskQueue (OnThreadTaskDone p) = m_TaskQueue p \<and>
   m_Counter (OnThreadTaskDone p) = m_Counter p \<and>
   (m_TaskQueue p = [] \<and> m_Counter p = 0 \<longrightarrow>
      m_Done (OnThreadTaskDone p) \<and> done_equivalence (OnThreadTaskDone p)) \<and>
   (\<not> (m_TaskQueue p = [] \<and> m_Counter p = 0) \<longrightarrow>
      m_Done (OnThreadTaskDone p) = m_Done p) \<and>
   (done_equivalence p \<longrightarrow> done_equivalence (OnThreadTaskDone p))"
proof -
  have a: "done_equivalence (cbThreadPool_new cpu sch owner ident n)"
    "m_Done (cbThreadPool_new cpu sch owner ident n)"
    by (simp_all add: done_equivalence_def cbThreadPool_new_eq)
  have b: "\<not> m_Aborting p \<longrightarrow>
      \<not> m_Done (snd (AddTask this tp del p)) \<and>
      m_TaskQueue (snd (AddTask this tp del p)) \<noteq> [] \<and>
      done_equivalence (snd (AddTask this tp del p))"
    by (simp add: done_equivalence_def AddTask_queue AddTask_done)
  have c: "m_Aborting p \<longrightarrow>
      m_Done (snd (AddTask this tp del p)) = m_Done p \<and>
      m_TaskQueue (snd (AddTask this tp del p)) = m_TaskQueue p \<and>
      m_Counter (snd (AddTask this tp del p)) = m_Counter p"
    by (simp add: AddTask_queue AddTask_done)
  have d: "done_equivalence p \<longrightarrow> done_equivalence (snd (AddTask this tp del p))"
    by (simp add: done_equivalence_def AddTask_queue AddTask_done)
  have e: "m_Done (OnThreadTaskDone p) = (m_Done p \<or> (m_TaskQueue p = [] \<and> m_Counter p = 0))"
    "m_TaskQueue (OnThreadTaskDone p) = m_TaskQueue p"
    "m_Counter (OnThreadTaskDone p) = m_Counter p"
    by (simp_all add: OnThreadTaskDone_eq)
  have f: "m_TaskQueue p = [] \<and> m_Counter p = 0 \<longrightarrow>
      m_Done (OnThreadTaskDone p) \<and> done_equivalence (OnThreadTaskDone p)"
    by (simp add: done_equivalence_def e)
  have g: "\<not> (m_TaskQueue p = [] \<and> m_Counter p = 0) \<longrightarrow>
      m_Done (OnThreadTaskDone p) = m_Done p"
    unfolding e by blast
  have h: "done_equivalence p \<longrightarrow> done_equivalence (OnThreadTaskDone p)"
    unfolding done_equivalence_def e by blast
  from a b c d e f g h show ?thesis by blast
qed

text \<open>
  The handler where a worker calls it: the only task of a pool with one worker
  has been executed and disposed of, the queue is empty and the counter zero,
  and the flag, cleared by the submission, is still clear. The handler sets it.
\<close>

theorem done_equivalence_kept_witness:
  "done_equivalence (cbThreadPool_new 4 [] 7 42 1) \<and>
   \<not> m_Aborting (cbThreadPool_new 4 [] 7 42 1) \<and>
   done_equivalence (snd (AddTask None (Some 1) False (cbThreadPool_new 4 [] 7 42 1))) \<and>
   \<not> m_Done (snd (AddTask None (Some 1) False (cbThreadPool_new 4 [] 7 42 1))) \<and>
   pc (heap (run ([CallAddTask None (Some 1) False] @ replicate 10 (WorkerMove 0))
               (cbThreadPool_new 4 [] 7 42 1)) ! 0) = Notify \<and>
   m_TaskQueue (run ([CallAddTask None (Some 1) False] @ replicate 10 (WorkerMove 0))
                  (cbThreadPool_new 4 [] 7 42 1)) = [] \<and>
   m_Counter (run ([CallAddTask None (Some 1) False] @ replicate 10 (WorkerMove 0))
                (cbThreadPool_new 4 [] 7 42 1)) = 0 \<and>
   \<not> m_Done (run ([CallAddTask None (Some 1) False] @ replicate 10 (WorkerMove 0))
                (cbThreadPool_new 4 [] 7 42 1)) \<and>
   m_Done (OnThreadTaskDone
             (run ([CallAddTask None (Some 1) False] @ replicate 10 (WorkerMove 0))
                (cbThreadPool_new 4 [] 7 42 1))) \<and>
   done_equivalence (OnThreadTaskDone
             (run ([CallAddTask None (Some 1) False] @ replicate 10 (WorkerMove 0))
                (cbThreadPool_new 4 [] 7 42 1)))"
proof -
  let ?n = "cbThreadPool_new 4 [] 7 42 1"
  let ?p = "run ([CallAddTask None (Some 1) False] @ replicate 10 (WorkerMove 0)) ?n"
  have na: "\<not> m_Aborting ?n" by (simp add: cbThreadPool_new_eq)
  have a: "pc (heap ?p ! 0) = Notify" by code_simp
  have b: "m_TaskQueue ?p = []" by code_simp
  have c: "m_Counter ?p = 0" by code_simp
  have d: "\<not> m_Done ?p" by code_simp
  from done_equivalence_kept [where cpu = 4 and sch = "[]" and owner = 7 and ident = 42 and n = 1
      and p = ?n and this = None and tp = "Some 1" and del = False] na
  have e: "done_equivalence ?n" "done_equivalence (snd (AddTask None (Some 1) False ?n))"
    "\<not> m_Done (snd (AddTask None (Some 1) False ?n))"
    by blast+
  from done_equivalence_kept [where p = ?p] b c
  have f: "m_Done (OnThreadTaskDone ?p)" "done_equivalence (OnThreadTaskDone ?p)"
    by blast+
  from e na a b c d f show ?thesis by blast
qed

text \<open>
  C1 as stated fails: \<^verbatim>\<open>AbortAllTasks\<close> does not keep the equivalence. A pool with one worker receives
  one task during a batch, so that the worker is not started: the flag is clear
  and the queue is not empty. \<^verbatim>\<open>AbortAllTasks\<close> empties the queue and never writes
  the flag: afterwards the queue is empty and the counter is zero, and the flag
  is still clear.
\<close>

theorem AbortAllTasks_breaks_done_equivalence:
  "done_equivalence (snd (AddTask None (Some 1) False (BatchBegin (cbThreadPool_new 4 [] 7 42 1)))) \<and>
   \<not> done_equivalence
       (AbortAllTasks None
          (snd (AddTask None (Some 1) False (BatchBegin (cbThreadPool_new 4 [] 7 42 1))))) \<and>
   m_TaskQueue
       (AbortAllTasks None
          (snd (AddTask None (Some 1) False (BatchBegin (cbThreadPool_new 4 [] 7 42 1))))) = [] \<and>
   m_Counter
       (AbortAllTasks None
          (snd (AddTask None (Some 1) False (BatchBegin (cbThreadPool_new 4 [] 7 42 1))))) = 0 \<and>
   \<not> m_Done
       (AbortAllTasks None
          (snd (AddTask None (Some 1) False (BatchBegin (cbThreadPool_new 4 [] 7 42 1)))))"
  by code_simp


section \<open>Notifications\<close>

text \<open>
  The property of the notifications posted so far that every action keeps, apart
  from a submission, which adds one to the bound: there are no more \<open>all done\<close>
  than \<open>task ended\<close> notifications, and the tasks reported and those still to be
  reported are at most \<open>k\<close>.
\<close>

lemma map_pc_update: "pc th = pc (xs ! i) \<Longrightarrow> map pc (xs[i := th]) = map pc xs"
  by (induction xs arbitrary: i) (auto split: nat.splits)

lemma reporting_same:
  assumes "map pc (heap q) = map pc (heap p)" "m_TaskQueue q = m_TaskQueue p" "posted q = posted p"
  shows "(count_alldone q \<le> count_ended q \<and> count_ended q + unreported q \<le> k) =
         (count_alldone p \<le> count_ended p \<and> count_ended p + unreported p \<le> k)"
  using assms by (simp add: count_alldone_def count_ended_def unreported_def)

lemma Abort_reporting:
  "count_alldone p \<le> count_ended p \<and> count_ended p + unreported p \<le> k \<Longrightarrow>
   count_alldone (Abort tid p) \<le> count_ended (Abort tid p) \<and>
   count_ended (Abort tid p) + unreported (Abort tid p) \<le> k"
  by (subst reporting_same [where p = p]) (simp_all add: Abort_heap map_pc_update)

lemma Kill_reporting:
  "count_alldone p \<le> count_ended p \<and> count_ended p + unreported p \<le> k \<Longrightarrow>
   count_alldone (wxThread_Kill tid p) \<le> count_ended (wxThread_Kill tid p) \<and>
   count_ended (wxThread_Kill tid p) + unreported (wxThread_Kill tid p) \<le> k"
  by (subst reporting_same [where p = p]) (simp_all add: Kill_heap map_pc_update)

lemma Run_reporting:
  "count_alldone p \<le> count_ended p \<and> count_ended p + unreported p \<le> k \<Longrightarrow>
   count_alldone (wxThread_Run tid p) \<le> count_ended (wxThread_Run tid p) \<and>
   count_ended (wxThread_Run tid p) + unreported (wxThread_Run tid p) \<le> k"
  by (subst reporting_same [where p = p]) (simp_all add: Run_heap map_pc_update)

lemma alloc_thread_reporting:
  "count_alldone p \<le> count_ended p \<and> count_ended p + unreported p \<le> k \<Longrightarrow>
   count_alldone (alloc_thread p) \<le> count_ended (alloc_thread p) \<and>
   count_ended (alloc_thread p) + unreported (alloc_thread p) \<le> k"
  by (simp add: alloc_thread_eq count_alldone_def count_ended_def unreported_def fresh_worker_def
      PrivateThread_new_def)

lemma Entry_step_reporting:
  assumes "count_alldone p \<le> count_ended p \<and> count_ended p + unreported p \<le> k"
  shows "count_alldone (Entry_step tid p) \<le> count_ended (Entry_step tid p) \<and>
         count_ended (Entry_step tid p) + unreported (Entry_step tid p) \<le> k"
proof (cases "IsRunning p tid")
  case False
  then show ?thesis using assms by (simp add: Entry_step_not_running)
next
  case True
  then have t: "tid < length (heap p)" by (simp add: IsRunning_def)
  have "int (count_alldone (Entry_step tid p)) \<le> int (count_ended (Entry_step tid p)) \<and>
        int (count_ended (Entry_step tid p)) + int (unreported (Entry_step tid p)) \<le> int k"
    using True t assms
    by (cases "pc (heap p ! tid)";
        auto simp: Entry_defs count_alldone_def count_ended_def unreported_def
          length_filter_update split: option.splits list.splits)
  then show ?thesis by linarith
qed

lemma perform_reporting:
  assumes p: "count_alldone p \<le> count_ended p \<and> count_ended p + unreported p \<le> k"
  shows "count_alldone (perform a p) \<le> count_ended (perform a p) \<and>
         count_ended (perform a p) + unreported (perform a p)
           \<le> k + (if is_submission a then 1 else 0)"
proof (cases a)
  case (CallAddTask this tp d)
  have up: "count_alldone q \<le> count_ended q \<and> count_ended q + unreported q \<le> k \<Longrightarrow>
            count_alldone q \<le> count_ended q \<and> count_ended q + unreported q \<le> Suc k" for q
    by simp
  have "count_alldone (snd (AddTask this tp d p)) \<le> count_ended (snd (AddTask this tp d p)) \<and>
        count_ended (snd (AddTask this tp d p)) + unreported (snd (AddTask this tp d p)) \<le> Suc k"
  proof (cases "m_Aborting p")
    case True
    then show ?thesis using p
      by (simp add: AddTask_def delete_task_def count_alldone_def count_ended_def unreported_def
          split: option.splits)
  next
    case False
    let ?q = "p\<lparr>m_TaskQueue := m_TaskQueue p @ [\<lparr>task = tp, autoDelete = d\<rparr>], m_Done := False\<rparr>"
    have q: "count_alldone ?q \<le> count_ended ?q \<and> count_ended ?q + unreported ?q \<le> Suc k"
      using p by (simp add: count_alldone_def count_ended_def unreported_def)
    have "count_alldone (RunThreads this ?q) \<le> count_ended (RunThreads this ?q) \<and>
          count_ended (RunThreads this ?q) + unreported (RunThreads this ?q) \<le> Suc k"
      by (rule RunThreads_preserves
            [where I = "\<lambda>q. count_alldone q \<le> count_ended q \<and> count_ended q + unreported q \<le> Suc k",
             OF Run_reporting q])
    with q False show ?thesis by (simp add: AddTask_def Let_def)
  qed
  with CallAddTask show ?thesis by simp
next
  case CallBatchBegin
  then show ?thesis using p
    by (simp add: BatchBegin_def count_alldone_def count_ended_def unreported_def)
next
  case (CallBatchEnd this)
  have q: "count_alldone (p\<lparr>m_Batching := False\<rparr>) \<le> count_ended (p\<lparr>m_Batching := False\<rparr>) \<and>
           count_ended (p\<lparr>m_Batching := False\<rparr>) + unreported (p\<lparr>m_Batching := False\<rparr>) \<le> k"
    using p by (simp add: count_alldone_def count_ended_def unreported_def)
  from RunThreads_preserves
    [where I = "\<lambda>q. count_alldone q \<le> count_ended q \<and> count_ended q + unreported q \<le> k",
      OF Run_reporting q]
    CallBatchEnd
  show ?thesis by (simp add: BatchEnd_def)
next
  case (CallAbortAllTasks this)
  have "count_alldone (AbortAllTasks this p) \<le> count_ended (AbortAllTasks this p) \<and>
        count_ended (AbortAllTasks this p) + unreported (AbortAllTasks this p) \<le> k"
    by (rule AbortAllTasks_preserves
          [where I = "\<lambda>q. count_alldone q \<le> count_ended q \<and> count_ended q + unreported q \<le> k",
           OF Entry_step_reporting Abort_reporting Kill_reporting _ _ _ alloc_thread_reporting
              _ _ _ p])
       (simp_all add: count_alldone_def count_ended_def unreported_def)
  with CallAbortAllTasks show ?thesis by simp
next
  case (CallSetConcurrentThreads cpu this n)
  have "count_alldone (SetConcurrentThreads cpu this n p)
          \<le> count_ended (SetConcurrentThreads cpu this n p) \<and>
        count_ended (SetConcurrentThreads cpu this n p)
          + unreported (SetConcurrentThreads cpu this n p) \<le> k"
    by (rule SetConcurrentThreads_preserves
          [where I = "\<lambda>q. count_alldone q \<le> count_ended q \<and> count_ended q + unreported q \<le> k",
           OF Entry_step_reporting Abort_reporting Kill_reporting _ _ _ alloc_thread_reporting
              _ p])
       (simp_all add: count_alldone_def count_ended_def unreported_def)
  with CallSetConcurrentThreads show ?thesis by simp
next
  case (WorkerMove tid)
  then show ?thesis using Entry_step_reporting [OF p] by simp
qed

lemma run_reporting:
  "count_alldone p \<le> count_ended p \<and> count_ended p + unreported p \<le> k \<Longrightarrow>
   count_alldone (run acts p) \<le> count_ended (run acts p) \<and>
   count_ended (run acts p) + unreported (run acts p) \<le> k + submissions acts"
proof (induction acts arbitrary: p k)
  case Nil
  then show ?case by (simp add: run_def submissions_def)
next
  case (Cons a acts)
  from Cons.IH [OF perform_reporting [OF Cons.prems, of a]]
  show ?case by (auto simp: run_def submissions_def split: if_splits)
qed

lemma new_reporting:
  "count_alldone (cbThreadPool_new cpu sch owner ident n)
     \<le> count_ended (cbThreadPool_new cpu sch owner ident n) \<and>
   count_ended (cbThreadPool_new cpu sch owner ident n)
     + unreported (cbThreadPool_new cpu sch owner ident n) \<le> 0"
  by (simp add: cbThreadPool_new_eq count_alldone_def count_ended_def unreported_def
      fresh_worker_def PrivateThread_new_def)

text \<open>
  When the handler runs for the last outstanding task, no other worker holds a
  task, so the counter is zero: a busy worker holds an element, and the worker
  that calls the handler holds one without being busy.
\<close>

lemma length_filter_mono:
  "(\<And>x. P x \<Longrightarrow> Q x) \<Longrightarrow> length (filter P xs) \<le> length (filter Q xs)"
  by (induction xs) auto

lemma length_filter_strict:
  assumes "\<And>x. P x \<Longrightarrow> Q x"
  shows "i < length xs \<Longrightarrow> Q (xs ! i) \<Longrightarrow> \<not> P (xs ! i) \<Longrightarrow>
           length (filter P xs) < length (filter Q xs)"
proof (induction xs arbitrary: i)
  case Nil
  then show ?case by simp
next
  case (Cons x xs)
  have mono: "length (filter P xs) \<le> length (filter Q xs)"
    by (rule length_filter_mono) (rule assms)
  show ?case
  proof (cases i)
    case 0
    with Cons.prems mono show ?thesis by simp
  next
    case (Suc j)
    with Cons.prems have "length (filter P xs) < length (filter Q xs)"
      by (intro Cons.IH [of j]) simp_all
    then show ?thesis using assms [of x] by auto
  qed
qed

lemma busy_below_holding:
  assumes "tid < length (heap p)" "pc (heap p ! tid) = Notify"
  shows "busy_workers p < length (filter holds_element (map pc (heap p)))"
proof -
  have imp: "State_of (pc th) = Busy \<Longrightarrow> (holds_element \<circ> pc) th" for th :: PrivateThread
    by (cases "pc th") simp_all
  have "length (filter (\<lambda>th. State_of (pc th) = Busy) (heap p))
          < length (filter (holds_element \<circ> pc) (heap p))"
    by (rule length_filter_strict [where i = tid, OF imp]) (simp_all add: assms)
  then show ?thesis by (simp add: busy_workers_def filter_map)
qed

lemma Entry_step_elsewhere:
  assumes "\<not> (IsRunning p tid \<and> pc (heap p ! tid) = Notify)"
  shows "posted (Entry_step tid p) = posted p \<and> m_Done (Entry_step tid p) = m_Done p"
  using assms
  by (cases "IsRunning p tid"; cases "pc (heap p ! tid)";
      simp add: Entry_defs split: option.splits list.splits)

lemma Entry_step_Notify:
  assumes "IsRunning p tid" "pc (heap p ! tid) = Notify"
  shows "posted (Entry_step tid p) =
           posted p @ cbEVT_THREADTASK_ENDED (m_ID p) #
             (if m_TaskQueue p = [] \<and> m_Counter p = 0 then [cbEVT_THREADTASK_ALLDONE (m_ID p)] else [])"
    and "m_Done (Entry_step tid p) = (m_Done p \<or> (m_TaskQueue p = [] \<and> m_Counter p = 0))"
  using assms by (simp_all add: Entry_step_def goto_def OnThreadTaskDone_eq)

lemma Entry_step_accounted:
  assumes "accounted k p"
  shows "accounted k (Entry_step tid p)"
proof -
  from assms have rep: "count_alldone p \<le> count_ended p \<and> count_ended p + unreported p \<le> k"
    and tr: "in_flight_iff_busy p" "fetched_task p"
    and st: "count_ended p = k \<and> 1 \<le> k \<longrightarrow>
               posted p \<noteq> [] \<and> \<not> is_ended (last (posted p)) \<and> m_Done p"
    by (simp_all add: accounted_def)
  note rep' = Entry_step_reporting [OF rep, of tid]
  note tr' = Entry_step_tracking [OF tr, of tid]
  have st': "count_ended (Entry_step tid p) = k \<and> 1 \<le> k \<longrightarrow>
               posted (Entry_step tid p) \<noteq> [] \<and> \<not> is_ended (last (posted (Entry_step tid p))) \<and>
               m_Done (Entry_step tid p)"
  proof (cases "IsRunning p tid \<and> pc (heap p ! tid) = Notify")
    case False
    from Entry_step_elsewhere [OF this] st show ?thesis by (simp add: count_ended_def)
  next
    case True
    then have t: "tid < length (heap p)" by (simp add: IsRunning_def)
    note post = Entry_step_Notify [of p tid]
    show ?thesis
    proof (intro impI)
      assume k: "count_ended (Entry_step tid p) = k \<and> 1 \<le> k"
      with True post(1) have "Suc (count_ended p) = k" by (simp add: count_ended_def)
      with rep have "unreported p \<le> 1" by simp
      moreover from busy_below_holding [OF t] True
      have b: "busy_workers p < length (filter holds_element (map pc (heap p)))" by simp
      ultimately have "length (m_TaskQueue p) = 0" "busy_workers p = 0"
        unfolding unreported_def by arith+
      then have "m_TaskQueue p = []" "busy_workers p = 0" by simp_all
      with tr(1) have "m_TaskQueue p = [] \<and> m_Counter p = 0"
        by (simp add: in_flight_iff_busy_def)
      with True post show "posted (Entry_step tid p) \<noteq> [] \<and>
          \<not> is_ended (last (posted (Entry_step tid p))) \<and> m_Done (Entry_step tid p)"
        by simp
    qed
  qed
  from rep' tr' st' show ?thesis by (simp add: accounted_def)
qed

lemma accounted_same:
  assumes "accounted k p"
    and "heap q = (heap p)[tid := th]" and "m_Counter q = m_Counter p"
    and "m_pTask th = m_pTask (heap p ! tid)" "pc th = pc (heap p ! tid)"
        "elem th = elem (heap p ! tid)"
    and "m_TaskQueue q = m_TaskQueue p" "posted q = posted p" "m_Done q = m_Done p"
  shows "accounted k q"
proof -
  from assms(1) have tr: "in_flight_iff_busy p \<and> fetched_task p" by (simp add: accounted_def)
  have tr': "in_flight_iff_busy q \<and> fetched_task q"
    by (rule tracking_update [OF tr assms(2) assms(3) assms(4) assms(5) assms(6)])
  have pcs: "map pc (heap q) = map pc (heap p)" using assms(2) assms(5) by (simp add: map_pc_update)
  from assms(1) tr' pcs assms(7) assms(8) assms(9) show ?thesis
    by (simp add: accounted_def count_alldone_def count_ended_def unreported_def)
qed

lemma Abort_accounted: "accounted k p \<Longrightarrow> accounted k (Abort tid p)"
  by (rule accounted_same [where tid = tid and th = "(heap p ! tid)\<lparr>m_Abort := True\<rparr>"])
     (simp_all add: Abort_heap)

lemma Kill_accounted: "accounted k p \<Longrightarrow> accounted k (wxThread_Kill tid p)"
  by (rule accounted_same [where tid = tid and th = "(heap p ! tid)\<lparr>wx_state := STATE_KILLED\<rparr>"])
     (simp_all add: Kill_heap)

lemma Run_m_Done [simp]: "m_Done (wxThread_Run tid p) = m_Done p"
  by (simp add: wxThread_Run_def)

lemma Run_accounted: "accounted k p \<Longrightarrow> accounted k (wxThread_Run tid p)"
  by (rule accounted_same [where tid = tid and
        th = "(if wx_state (heap p ! tid) = STATE_CREATED
              then (heap p ! tid)\<lparr>wx_state := STATE_RUNNING\<rparr> else heap p ! tid)"])
     (simp_all add: Run_heap)

lemma alloc_thread_accounted: "accounted k p \<Longrightarrow> accounted k (alloc_thread p)"
  by (simp add: accounted_def alloc_thread_eq count_alldone_def count_ended_def unreported_def
      in_flight_iff_busy_def fetched_task_def busy_workers_def fresh_worker_def
      PrivateThread_new_def)

lemmas accounted_defs =
  accounted_def count_alldone_def count_ended_def unreported_def in_flight_iff_busy_def
  fetched_task_def busy_workers_def

lemma perform_accounted:
  assumes p: "accounted k p"
  shows "accounted (k + (if is_submission a then 1 else 0)) (perform a p)"
proof (cases a)
  case (CallAddTask this tp d)
  have "accounted (Suc k) (snd (AddTask this tp d p))"
  proof (cases "m_Aborting p")
    case True
    then show ?thesis using p
      by (auto simp: AddTask_def delete_task_def accounted_defs split: option.splits)
  next
    case False
    let ?q = "p\<lparr>m_TaskQueue := m_TaskQueue p @ [\<lparr>task = tp, autoDelete = d\<rparr>], m_Done := False\<rparr>"
    have q: "accounted (Suc k) ?q" using p by (auto simp: accounted_defs)
    have "accounted (Suc k) (RunThreads this ?q)"
      by (rule RunThreads_preserves [where I = "accounted (Suc k)", OF Run_accounted q])
    with False q show ?thesis by (simp add: AddTask_def Let_def)
  qed
  with CallAddTask show ?thesis by simp
next
  case CallBatchBegin
  then show ?thesis using p by (simp add: BatchBegin_def accounted_defs)
next
  case (CallBatchEnd this)
  have q: "accounted k (p\<lparr>m_Batching := False\<rparr>)" using p by (simp add: accounted_defs)
  from RunThreads_preserves [where I = "accounted k", OF Run_accounted q] CallBatchEnd
  show ?thesis by (simp add: BatchEnd_def)
next
  case (CallAbortAllTasks this)
  have "accounted k (AbortAllTasks this p)"
    by (rule AbortAllTasks_preserves
          [where I = "accounted k",
           OF Entry_step_accounted Abort_accounted Kill_accounted _ _ _ alloc_thread_accounted
              _ _ _ p])
       (auto simp: accounted_defs)
  with CallAbortAllTasks show ?thesis by simp
next
  case (CallSetConcurrentThreads cpu this n)
  have "accounted k (SetConcurrentThreads cpu this n p)"
    by (rule SetConcurrentThreads_preserves
          [where I = "accounted k",
           OF Entry_step_accounted Abort_accounted Kill_accounted _ _ _ alloc_thread_accounted
              _ p])
       (auto simp: accounted_defs)
  with CallSetConcurrentThreads show ?thesis by simp
next
  case (WorkerMove tid)
  then show ?thesis using Entry_step_accounted [OF p] by simp
qed

lemma run_accounted: "accounted k p \<Longrightarrow> accounted (k + submissions acts) (run acts p)"
proof (induction acts arbitrary: p k)
  case Nil
  then show ?case by (simp add: run_def submissions_def)
next
  case (Cons a acts)
  from Cons.IH [OF perform_accounted [OF Cons.prems, of a]]
  show ?case by (auto simp: run_def submissions_def split: if_splits)
qed

lemma new_accounted: "accounted 0 (cbThreadPool_new cpu sch owner ident n)"
  using new_reporting [of cpu sch owner ident n]
    reachable_tracking [OF reachable_new [of cpu sch owner ident n]]
  by (simp add: accounted_def)

text \<open>
  When nothing is left to report (the queue is empty and no worker holds an
  element), nothing is posted and the done flag is not written until the next
  submission.
\<close>

lemma Entry_step_unreported:
  "count_ended (Entry_step tid p) + unreported (Entry_step tid p)
     \<le> count_ended p + unreported p"
proof (cases "IsRunning p tid")
  case False
  then show ?thesis by (simp add: Entry_step_not_running)
next
  case True
  then have t: "tid < length (heap p)" by (simp add: IsRunning_def)
  have "int (count_ended (Entry_step tid p)) + int (unreported (Entry_step tid p))
          \<le> int (count_ended p) + int (unreported p)"
    using True t
    by (cases "pc (heap p ! tid)";
        auto simp: Entry_defs count_ended_def unreported_def
          length_filter_update split: option.splits list.splits)
  then show ?thesis by linarith
qed

lemma Entry_step_idle:
  assumes "unreported p = 0 \<and> posted p = P \<and> m_Done p = D"
  shows "unreported (Entry_step tid p) = 0 \<and> posted (Entry_step tid p) = P \<and> m_Done (Entry_step tid p) = D"
proof -
  have "\<not> (IsRunning p tid \<and> pc (heap p ! tid) = Notify)"
  proof
    assume n: "IsRunning p tid \<and> pc (heap p ! tid) = Notify"
    then have "tid < length (heap p)" by (simp add: IsRunning_def)
    from busy_below_holding [OF this] n assms show False by (simp add: unreported_def)
  qed
  from Entry_step_elsewhere [OF this]
  have same: "posted (Entry_step tid p) = posted p" "m_Done (Entry_step tid p) = m_Done p"
    by simp_all
  with Entry_step_unreported [of tid p] assms show ?thesis by (simp add: count_ended_def)
qed

lemma idle_same:
  assumes "unreported p = 0 \<and> posted p = P \<and> m_Done p = D"
    and "map pc (heap q) = map pc (heap p)" "m_TaskQueue q = m_TaskQueue p" "posted q = posted p"
        "m_Done q = m_Done p"
  shows "unreported q = 0 \<and> posted q = P \<and> m_Done q = D"
  using assms by (simp add: unreported_def)

lemma Abort_idle:
  "unreported p = 0 \<and> posted p = P \<and> m_Done p = D \<Longrightarrow> unreported (Abort tid p) = 0 \<and> posted (Abort tid p) = P \<and> m_Done (Abort tid p) = D"
  by (erule idle_same) (simp_all add: Abort_heap map_pc_update)

lemma Kill_idle:
  "unreported p = 0 \<and> posted p = P \<and> m_Done p = D \<Longrightarrow>
   unreported (wxThread_Kill tid p) = 0 \<and> posted (wxThread_Kill tid p) = P \<and> m_Done (wxThread_Kill tid p) = D"
  by (erule idle_same) (simp_all add: Kill_heap map_pc_update)

lemma Run_idle:
  "unreported p = 0 \<and> posted p = P \<and> m_Done p = D \<Longrightarrow>
   unreported (wxThread_Run tid p) = 0 \<and> posted (wxThread_Run tid p) = P \<and> m_Done (wxThread_Run tid p) = D"
  by (erule idle_same) (simp_all add: Run_heap map_pc_update)

lemma alloc_thread_idle:
  "unreported p = 0 \<and> posted p = P \<and> m_Done p = D \<Longrightarrow>
   unreported (alloc_thread p) = 0 \<and> posted (alloc_thread p) = P \<and> m_Done (alloc_thread p) = D"
  by (simp add: alloc_thread_eq unreported_def fresh_worker_def PrivateThread_new_def)

lemma perform_idle:
  assumes p: "unreported p = 0 \<and> posted p = P \<and> m_Done p = D" and a: "\<not> is_submission a"
  shows "unreported (perform a p) = 0 \<and> posted (perform a p) = P \<and> m_Done (perform a p) = D"
proof (cases a)
  case (CallAddTask this tp d)
  with a show ?thesis by simp
next
  case CallBatchBegin
  then show ?thesis using p by (simp add: BatchBegin_def unreported_def)
next
  case (CallBatchEnd this)
  have q: "unreported (p\<lparr>m_Batching := False\<rparr>) = 0 \<and> posted (p\<lparr>m_Batching := False\<rparr>) = P \<and> m_Done (p\<lparr>m_Batching := False\<rparr>) = D"
    using p by (simp add: unreported_def)
  from RunThreads_preserves [where I = "\<lambda>q. unreported q = 0 \<and> posted q = P \<and> m_Done q = D", OF Run_idle q]
    CallBatchEnd
  show ?thesis by (simp add: BatchEnd_def)
next
  case (CallAbortAllTasks this)
  have "unreported (AbortAllTasks this p) = 0 \<and> posted (AbortAllTasks this p) = P \<and> m_Done (AbortAllTasks this p) = D"
    by (rule AbortAllTasks_preserves
          [where I = "\<lambda>q. unreported q = 0 \<and> posted q = P \<and> m_Done q = D",
           OF Entry_step_idle Abort_idle Kill_idle _ _ _ alloc_thread_idle _ _ _ p])
       (simp_all add: unreported_def)
  with CallAbortAllTasks show ?thesis by simp
next
  case (CallSetConcurrentThreads cpu this n)
  have "unreported (SetConcurrentThreads cpu this n p) = 0 \<and>
        posted (SetConcurrentThreads cpu this n p) = P \<and> m_Done (SetConcurrentThreads cpu this n p) = D"
    by (rule SetConcurrentThreads_preserves
          [where I = "\<lambda>q. unreported q = 0 \<and> posted q = P \<and> m_Done q = D",
           OF Entry_step_idle Abort_idle Kill_idle _ _ _ alloc_thread_idle _ p])
       (simp_all add: unreported_def)
  with CallSetConcurrentThreads show ?thesis by simp
next
  case (WorkerMove tid)
  then show ?thesis using Entry_step_idle [OF p] by simp
qed

lemma run_idle:
  "unreported p = 0 \<and> posted p = P \<and> m_Done p = D \<Longrightarrow> list_all (\<lambda>a. \<not> is_submission a) acts \<Longrightarrow>
   unreported (run acts p) = 0 \<and> posted (run acts p) = P \<and> m_Done (run acts p) = D"
proof (induction acts arbitrary: p)
  case Nil
  then show ?case by (simp add: run_def)
next
  case (Cons a acts)
  from Cons.prems have a: "\<not> is_submission a" and r: "list_all (\<lambda>a. \<not> is_submission a) acts"
    by simp_all
  from Cons.IH [OF perform_idle [OF Cons.prems(1) a] r]
  show ?case by (simp add: run_def)
qed

lemma run_append: "run (acts @ acts') p = run acts' (run acts p)"
  by (simp add: run_def)

text \<open>Every notification carries the pool's id, which nothing changes.\<close>

lemma Entry_step_posted_ids:
  assumes "m_ID p = i \<and> set (posted p) \<subseteq> {cbEVT_THREADTASK_ENDED i, cbEVT_THREADTASK_ALLDONE i}"
  shows "m_ID (Entry_step tid p) = i \<and>
         set (posted (Entry_step tid p)) \<subseteq> {cbEVT_THREADTASK_ENDED i, cbEVT_THREADTASK_ALLDONE i}"
  using assms
  by (cases "IsRunning p tid"; cases "pc (heap p ! tid)";
      simp add: Entry_defs OnThreadTaskDone_eq split: option.splits list.splits)

lemma run_posted_ids:
  assumes "m_ID p = i" "posted p = []"
  shows "set (posted (run acts p)) \<subseteq> {cbEVT_THREADTASK_ENDED i, cbEVT_THREADTASK_ALLDONE i}"
proof -
  let ?I = "\<lambda>q :: cbThreadPool. m_ID q = i \<and>
              set (posted q) \<subseteq> {cbEVT_THREADTASK_ENDED i, cbEVT_THREADTASK_ALLDONE i}"
  have "?I (run acts p)"
    unfolding run_def
  proof (rule fold_preserves [where I = ?I])
    show "?I p" using assms by simp
  next
    fix a q
    assume q: "?I q"
    show "?I (perform a q)"
      by (rule perform_preserves [where I = ?I, OF _ _ _ _ _ _ _ _ _ _ _ _ _ _ q])
         (simp_all add: Entry_step_posted_ids alloc_thread_eq wxThread_Run_def)
  qed
  then show ?thesis by simp
qed

text \<open>
  C2, as far as the code goes. The completion handler always posts one
  \<open>task ended\<close> notification, and after it one \<open>all tasks done\<close> notification,
  setting the done flag, exactly when the queue is empty and the busy counter is
  zero. A worker calls the handler in its move after the task's disposal, and no
  other move of a worker posts anything. In every run from a new pool there are
  at most as many \<open>task ended\<close> notifications as tasks were submitted, and at most
  as many \<open>all tasks done\<close> notifications as \<open>task ended\<close> ones. Once every
  submitted task (at least one) has been reported by its \<open>task ended\<close>
  notification, the last notification posted is an \<open>all tasks done\<close> one, so
  there is at least one of them, and the done flag is set; and from then on
  nothing is posted and the done flag stays set, whatever the workers and the
  callers do, until a task is submitted again.
\<close>

theorem completion_notifications:
  "posted (OnThreadTaskDone p) =
     posted p @ cbEVT_THREADTASK_ENDED (m_ID p) #
       (if m_TaskQueue p = [] \<and> m_Counter p = 0 then [cbEVT_THREADTASK_ALLDONE (m_ID p)] else []) \<and>
   m_Done (OnThreadTaskDone p) = (m_Done p \<or> (m_TaskQueue p = [] \<and> m_Counter p = 0)) \<and>
   (IsRunning p tid \<and> pc (heap p ! tid) = Notify \<longrightarrow>
      Entry_step tid p = goto tid LoopHead (OnThreadTaskDone p)) \<and>
   (posted (Entry_step tid p) \<noteq> posted p \<longrightarrow> IsRunning p tid \<and> pc (heap p ! tid) = Notify) \<and>
   count_ended (run acts (cbThreadPool_new cpu sch owner ident n)) \<le> submissions acts \<and>
   count_alldone (run acts (cbThreadPool_new cpu sch owner ident n))
     \<le> count_ended (run acts (cbThreadPool_new cpu sch owner ident n)) \<and>
   (count_ended (run acts (cbThreadPool_new cpu sch owner ident n)) = submissions acts \<and>
    1 \<le> submissions acts \<longrightarrow>
      posted (run acts (cbThreadPool_new cpu sch owner ident n)) \<noteq> [] \<and>
      last (posted (run acts (cbThreadPool_new cpu sch owner ident n))) =
        cbEVT_THREADTASK_ALLDONE ident \<and>
      1 \<le> count_alldone (run acts (cbThreadPool_new cpu sch owner ident n)) \<and>
      m_Done (run acts (cbThreadPool_new cpu sch owner ident n))) \<and>
   (count_ended (run acts (cbThreadPool_new cpu sch owner ident n)) = submissions acts \<and>
    list_all (\<lambda>a. \<not> is_submission a) acts' \<longrightarrow>
      posted (run (acts @ acts') (cbThreadPool_new cpu sch owner ident n)) =
        posted (run acts (cbThreadPool_new cpu sch owner ident n)) \<and>
      m_Done (run (acts @ acts') (cbThreadPool_new cpu sch owner ident n)) =
        m_Done (run acts (cbThreadPool_new cpu sch owner ident n)))"
proof -
  let ?r = "run acts (cbThreadPool_new cpu sch owner ident n)"
  have a: "posted (OnThreadTaskDone p) =
     posted p @ cbEVT_THREADTASK_ENDED (m_ID p) #
       (if m_TaskQueue p = [] \<and> m_Counter p = 0 then [cbEVT_THREADTASK_ALLDONE (m_ID p)] else [])"
    by (simp add: OnThreadTaskDone_eq)
  have b: "m_Done (OnThreadTaskDone p) = (m_Done p \<or> (m_TaskQueue p = [] \<and> m_Counter p = 0))"
    by (simp add: OnThreadTaskDone_eq)
  have c: "IsRunning p tid \<and> pc (heap p ! tid) = Notify \<longrightarrow>
      Entry_step tid p = goto tid LoopHead (OnThreadTaskDone p)"
    by (simp add: Entry_step_def)
  have d: "posted (Entry_step tid p) \<noteq> posted p \<longrightarrow> IsRunning p tid \<and> pc (heap p ! tid) = Notify"
    using Entry_step_elsewhere [of p tid] by blast
  from run_accounted [OF new_accounted, where acts = acts and cpu1 = cpu and sch1 = sch
      and owner1 = owner and ident1 = ident and n1 = n]
  have acc: "accounted (submissions acts) ?r" by simp
  then have e: "count_ended ?r \<le> submissions acts"
    and f: "count_alldone ?r \<le> count_ended ?r"
    by (simp_all add: accounted_def)
  have ids: "set (posted ?r) \<subseteq> {cbEVT_THREADTASK_ENDED ident, cbEVT_THREADTASK_ALLDONE ident}"
    by (rule run_posted_ids) (simp add: cbThreadPool_new_eq)+
  have g: "count_ended ?r = submissions acts \<and> 1 \<le> submissions acts \<longrightarrow>
             posted ?r \<noteq> [] \<and> last (posted ?r) = cbEVT_THREADTASK_ALLDONE ident \<and>
             1 \<le> count_alldone ?r \<and> m_Done ?r"
  proof (intro impI)
    assume "count_ended ?r = submissions acts \<and> 1 \<le> submissions acts"
    with acc have ne: "posted ?r \<noteq> []" and l: "\<not> is_ended (last (posted ?r))" and dn: "m_Done ?r"
      by (simp_all add: accounted_def)
    from ne have m: "last (posted ?r) \<in> set (posted ?r)" by simp
    with ids l have la: "last (posted ?r) = cbEVT_THREADTASK_ALLDONE ident" by auto
    from m l have "filter (\<lambda>e. \<not> is_ended e) (posted ?r) \<noteq> []"
      by (auto simp: filter_empty_conv)
    then have "1 \<le> count_alldone ?r"
      by (cases "filter (\<lambda>e. \<not> is_ended e) (posted ?r)") (simp_all add: count_alldone_def)
    with ne la dn
    show "posted ?r \<noteq> [] \<and> last (posted ?r) = cbEVT_THREADTASK_ALLDONE ident \<and>
          1 \<le> count_alldone ?r \<and> m_Done ?r"
      by simp
  qed
  have h: "count_ended ?r = submissions acts \<and> list_all (\<lambda>a. \<not> is_submission a) acts' \<longrightarrow>
             posted (run (acts @ acts') (cbThreadPool_new cpu sch owner ident n)) = posted ?r \<and>
             m_Done (run (acts @ acts') (cbThreadPool_new cpu sch owner ident n)) = m_Done ?r"
  proof (intro impI)
    assume k: "count_ended ?r = submissions acts \<and> list_all (\<lambda>a. \<not> is_submission a) acts'"
    with acc have "unreported ?r = 0 \<and> posted ?r = posted ?r \<and> m_Done ?r = m_Done ?r"
      by (simp add: accounted_def)
    from run_idle [OF this, of acts'] k
    show "posted (run (acts @ acts') (cbThreadPool_new cpu sch owner ident n)) = posted ?r \<and>
          m_Done (run (acts @ acts') (cbThreadPool_new cpu sch owner ident n)) = m_Done ?r"
      by (simp add: run_append)
  qed
  from a b c d e f g h show ?thesis by blast
qed

text \<open>
  One task on a pool with one worker: after the worker's eleventh move the one
  task has been reported, the two notifications are there, the second of them
  the \<open>all tasks done\<close> one, the flag is set, and twenty more moves of the worker
  and a call of \<^verbatim>\<open>BatchEnd\<close> post nothing.
\<close>

theorem completion_notifications_witness:
  "IsRunning (run ([CallAddTask None (Some 1) False] @ replicate 10 (WorkerMove 0))
                (cbThreadPool_new 4 [] 7 42 1)) 0 \<and>
   pc (heap (run ([CallAddTask None (Some 1) False] @ replicate 10 (WorkerMove 0))
                (cbThreadPool_new 4 [] 7 42 1)) ! 0) = Notify \<and>
   posted (run ([CallAddTask None (Some 1) False] @ replicate 10 (WorkerMove 0))
                (cbThreadPool_new 4 [] 7 42 1)) = [] \<and>
   Entry_step 0 (run ([CallAddTask None (Some 1) False] @ replicate 10 (WorkerMove 0))
                (cbThreadPool_new 4 [] 7 42 1)) =
     goto 0 LoopHead
       (OnThreadTaskDone (run ([CallAddTask None (Some 1) False] @ replicate 10 (WorkerMove 0))
                (cbThreadPool_new 4 [] 7 42 1))) \<and>
   posted (Entry_step 0 (run ([CallAddTask None (Some 1) False] @ replicate 10 (WorkerMove 0))
                (cbThreadPool_new 4 [] 7 42 1))) =
     [cbEVT_THREADTASK_ENDED 42, cbEVT_THREADTASK_ALLDONE 42] \<and>
   m_Done (Entry_step 0 (run ([CallAddTask None (Some 1) False] @ replicate 10 (WorkerMove 0))
                (cbThreadPool_new 4 [] 7 42 1))) \<and>
   submissions ([CallAddTask None (Some 1) False] @ replicate 11 (WorkerMove 0)) = 1 \<and>
   count_ended (run ([CallAddTask None (Some 1) False] @ replicate 11 (WorkerMove 0))
                  (cbThreadPool_new 4 [] 7 42 1)) = 1 \<and>
   last (posted (run ([CallAddTask None (Some 1) False] @ replicate 11 (WorkerMove 0))
                   (cbThreadPool_new 4 [] 7 42 1))) = cbEVT_THREADTASK_ALLDONE 42 \<and>
   1 \<le> count_alldone (run ([CallAddTask None (Some 1) False] @ replicate 11 (WorkerMove 0))
                        (cbThreadPool_new 4 [] 7 42 1)) \<and>
   m_Done (run ([CallAddTask None (Some 1) False] @ replicate 11 (WorkerMove 0))
             (cbThreadPool_new 4 [] 7 42 1)) \<and>
   posted (run (([CallAddTask None (Some 1) False] @ replicate 11 (WorkerMove 0)) @
                (replicate 20 (WorkerMove 0) @ [CallBatchEnd None]))
             (cbThreadPool_new 4 [] 7 42 1)) =
     posted (run ([CallAddTask None (Some 1) False] @ replicate 11 (WorkerMove 0))
               (cbThreadPool_new 4 [] 7 42 1)) \<and>
   m_Done (run (([CallAddTask None (Some 1) False] @ replicate 11 (WorkerMove 0)) @
                (replicate 20 (WorkerMove 0) @ [CallBatchEnd None]))
             (cbThreadPool_new 4 [] 7 42 1))"
proof -
  let ?n = "cbThreadPool_new 4 [] 7 42 1"
  let ?p = "run ([CallAddTask None (Some 1) False] @ replicate 10 (WorkerMove 0)) ?n"
  let ?acts = "[CallAddTask None (Some 1) False] @ replicate 11 (WorkerMove 0)"
  let ?acts' = "replicate 20 (WorkerMove 0) @ [CallBatchEnd None]"
  have a: "IsRunning ?p 0" by code_simp
  have b: "pc (heap ?p ! 0) = Notify" by code_simp
  have c: "posted ?p = []" by code_simp
  have d: "posted (Entry_step 0 ?p) = [cbEVT_THREADTASK_ENDED 42, cbEVT_THREADTASK_ALLDONE 42]"
    by code_simp
  have e: "m_Done (Entry_step 0 ?p)" by code_simp
  have s: "submissions ?acts = 1" by code_simp
  have s1: "1 \<le> submissions ?acts" by code_simp
  have ce: "count_ended (run ?acts ?n) = 1" by code_simp
  have ces: "count_ended (run ?acts ?n) = submissions ?acts" by code_simp
  have q: "list_all (\<lambda>a. \<not> is_submission a) ?acts'" by code_simp
  note inst = completion_notifications [where p = ?p and tid = 0 and acts = ?acts
      and acts' = ?acts' and cpu = 4 and sch = "[]" and owner = 7 and ident = 42 and n = 1]
  from inst have "IsRunning ?p 0 \<and> pc (heap ?p ! 0) = Notify \<longrightarrow>
          Entry_step 0 ?p = goto 0 LoopHead (OnThreadTaskDone ?p)"
    by blast
  with a b have f: "Entry_step 0 ?p = goto 0 LoopHead (OnThreadTaskDone ?p)" by blast
  from inst have "count_ended (run ?acts ?n) = submissions ?acts \<and> 1 \<le> submissions ?acts \<longrightarrow>
      posted (run ?acts ?n) \<noteq> [] \<and> last (posted (run ?acts ?n)) = cbEVT_THREADTASK_ALLDONE 42 \<and>
      1 \<le> count_alldone (run ?acts ?n) \<and> m_Done (run ?acts ?n)"
    by blast
  with ces s1 have g: "last (posted (run ?acts ?n)) = cbEVT_THREADTASK_ALLDONE 42"
      "1 \<le> count_alldone (run ?acts ?n)" "m_Done (run ?acts ?n)"
    by blast+
  from inst have "count_ended (run ?acts ?n) = submissions ?acts \<and>
        list_all (\<lambda>a. \<not> is_submission a) ?acts' \<longrightarrow>
      posted (run (?acts @ ?acts') ?n) = posted (run ?acts ?n) \<and>
      m_Done (run (?acts @ ?acts') ?n) = m_Done (run ?acts ?n)"
    by blast
  with ces q have h: "posted (run (?acts @ ?acts') ?n) = posted (run ?acts ?n)"
      "m_Done (run (?acts @ ?acts') ?n) = m_Done (run ?acts ?n)"
    by blast+
  from h(2) g(3) have i: "m_Done (run (?acts @ ?acts') ?n)" by blast
  from a b c f d e s ce g h(1) i show ?thesis by blast
qed

text \<open>
  C2 as stated fails: more than one \<open>all tasks done\<close> notification can follow
  one run of tasks. A pool
  with two workers receives two tasks. The first worker fetches the first task,
  executes it and decrements the counter; the second worker then does the same
  with the second task. The queue is now empty and the counter zero, and each of
  the two workers, calling the completion handler, posts an \<open>all tasks done\<close>
  notification: there are two of them, and nothing was submitted in between (no
  notification had been posted when the second task was submitted).
\<close>

theorem two_all_done_notifications:
  "submissions
     ([CallAddTask None (Some 1) False] @ replicate 5 (WorkerMove 0) @
      [CallAddTask None (Some 2) False] @ replicate 5 (WorkerMove 0) @
      replicate 10 (WorkerMove 1) @ [WorkerMove 0, WorkerMove 1]) = 2 \<and>
   posted (run ([CallAddTask None (Some 1) False] @ replicate 5 (WorkerMove 0) @
                [CallAddTask None (Some 2) False])
             (cbThreadPool_new 4 [] 7 42 2)) = [] \<and>
   posted (run ([CallAddTask None (Some 1) False] @ replicate 5 (WorkerMove 0) @
                [CallAddTask None (Some 2) False] @ replicate 5 (WorkerMove 0) @
                replicate 10 (WorkerMove 1) @ [WorkerMove 0, WorkerMove 1])
             (cbThreadPool_new 4 [] 7 42 2)) =
     [cbEVT_THREADTASK_ENDED 42, cbEVT_THREADTASK_ALLDONE 42,
      cbEVT_THREADTASK_ENDED 42, cbEVT_THREADTASK_ALLDONE 42] \<and>
   count_alldone
     (run ([CallAddTask None (Some 1) False] @ replicate 5 (WorkerMove 0) @
           [CallAddTask None (Some 2) False] @ replicate 5 (WorkerMove 0) @
           replicate 10 (WorkerMove 1) @ [WorkerMove 0, WorkerMove 1])
        (cbThreadPool_new 4 [] 7 42 2)) = 2 \<and>
   executed
     (run ([CallAddTask None (Some 1) False] @ replicate 5 (WorkerMove 0) @
           [CallAddTask None (Some 2) False] @ replicate 5 (WorkerMove 0) @
           replicate 10 (WorkerMove 1) @ [WorkerMove 0, WorkerMove 1])
        (cbThreadPool_new 4 [] 7 42 2)) = [1, 2]"
  by code_simp


section \<open>The workers that can still start a task\<close>

lemma live_in_pool_same:
  "heap q = heap p \<Longrightarrow> m_Threads q = m_Threads p \<Longrightarrow> live_in_pool q = live_in_pool p"
  by (simp add: live_in_pool_def)

lemma Run_live_in_pool:
  assumes "live_in_pool p" "tid \<in> set (m_Threads p)"
  shows "live_in_pool (wxThread_Run tid p)"
  unfolding live_in_pool_def
proof (intro allI impI)
  fix t assume t: "t < length (heap (wxThread_Run tid p))"
    and r: "wx_state (heap (wxThread_Run tid p) ! t) = STATE_RUNNING"
  show "m_Abort (heap (wxThread_Run tid p) ! t) \<or> wx_destroy (heap (wxThread_Run tid p) ! t) \<or>
        t \<in> set (m_Threads (wxThread_Run tid p))"
  proof (cases "t = tid")
    case True
    with assms(2) show ?thesis by simp
  next
    case False
    with t r have "t < length (heap p)" "wx_state (heap p ! t) = STATE_RUNNING"
      by (simp_all add: Run_heap)
    with assms(1) False show ?thesis unfolding live_in_pool_def by (auto simp: Run_heap)
  qed
qed

lemma FreeThreads_quiet:
  assumes "live_in_pool p"
  shows "quiet (FreeThreads this p)"
  by (rule FreeThreads_establishes [where I = quiet and J = quiet,
        OF Entry_step_quiet Abort_quiet Kill_quiet _ _ _ fold_Abort_quiet [OF assms]])
     (simp_all add: quiet_def)

lemma AllocThreads_quiet:
  assumes "live_in_pool p"
  shows "quiet (AllocThreads this p)"
  unfolding AllocThreads_def Let_def
  by (rule alloc_loop_preserves [where I = quiet, OF alloc_thread_quiet FreeThreads_quiet [OF assms]])

lemma SetConcurrentThreads_quiet:
  assumes "live_in_pool p"
  shows "quiet (SetConcurrentThreads cpu this n p)"
proof -
  have "live_in_pool (p\<lparr>m_ConcurrentThreads := m\<rparr>)" for m
    using assms by (simp add: live_in_pool_def)
  from AllocThreads_quiet [OF this] show ?thesis
    by (simp add: SetConcurrentThreads_def Let_def)
qed

lemma ClearTaskQueue_eq:
  "ClearTaskQueue p =
     p\<lparr>deleted := deleted p @ concat (map owned_task (m_TaskQueue p)), m_TaskQueue := []\<rparr>"
proof -
  have "fold (\<lambda>e q. if autoDelete e then delete_task (task e) q else q) xs q =
          q\<lparr>deleted := deleted q @ concat (map owned_task xs)\<rparr>" for xs and q :: cbThreadPool
    by (induction xs arbitrary: q)
       (simp_all add: delete_task_def owned_task_def split: option.splits)
  then show ?thesis by (simp add: ClearTaskQueue_def)
qed

lemma AbortAllTasks_quiet:
  assumes "live_in_pool p"
  shows "quiet (AbortAllTasks this p)"
proof -
  have "live_in_pool (ClearTaskQueue (p\<lparr>m_Aborting := True\<rparr>))"
    using assms by (simp add: ClearTaskQueue_eq live_in_pool_def)
  from FreeThreads_quiet [OF this]
  have "live_in_pool (FreeThreads this (ClearTaskQueue (p\<lparr>m_Aborting := True\<rparr>)))"
    by (rule quiet_live_in_pool)
  from AllocThreads_quiet [OF this] show ?thesis
    by (simp add: AbortAllTasks_def Let_def quiet_def)
qed

lemma perform_live_in_pool:
  assumes "live_in_pool p"
  shows "live_in_pool (perform a p)"
proof (cases a)
  case (CallAddTask this tp d)
  have "live_in_pool (snd (AddTask this tp d p))"
    by (rule AddTask_preserves [where I = live_in_pool, OF Run_live_in_pool _ _ assms])
       (simp_all add: live_in_pool_def)
  with CallAddTask show ?thesis by simp
next
  case CallBatchBegin
  then show ?thesis using assms by (simp add: BatchBegin_def live_in_pool_def)
next
  case (CallBatchEnd this)
  have "live_in_pool (p\<lparr>m_Batching := False\<rparr>)" using assms by (simp add: live_in_pool_def)
  from RunThreads_preserves [where I = live_in_pool, OF Run_live_in_pool this] CallBatchEnd
  show ?thesis by (simp add: BatchEnd_def)
next
  case (CallAbortAllTasks this)
  then show ?thesis using quiet_live_in_pool [OF AbortAllTasks_quiet [OF assms]] by simp
next
  case (CallSetConcurrentThreads cpu this n)
  then show ?thesis using quiet_live_in_pool [OF SetConcurrentThreads_quiet [OF assms]] by simp
next
  case (WorkerMove tid)
  then show ?thesis using Entry_step_live_in_pool [OF assms] by simp
qed

lemma reachable_live_in_pool: "reachable p \<Longrightarrow> live_in_pool p"
proof (induction rule: reachable.induct)
  case (reachable_new cpu sch owner ident n)
  show ?case
    by (simp add: cbThreadPool_new_eq live_in_pool_def fresh_worker_def PrivateThread_new_def)
next
  case (reachable_perform p a)
  then show ?case by (simp add: perform_live_in_pool)
qed

lemma SetConcurrentThreads_m_Aborting:
  "m_Aborting (SetConcurrentThreads cpu this n p) = m_Aborting p"
  using AllocThreads_result [of this "p\<lparr>m_ConcurrentThreads := m\<rparr>" for m]
  by (simp add: SetConcurrentThreads_def Let_def)

lemma reachable_not_aborting: "reachable p \<Longrightarrow> \<not> m_Aborting p"
proof (induction rule: reachable.induct)
  case (reachable_new cpu sch owner ident n)
  show ?case by (simp add: cbThreadPool_new_eq)
next
  case (reachable_perform p a)
  then show ?case
    by (cases a)
       (simp_all add: BatchBegin_def BatchEnd_def AbortAllTasks_def Let_def
          SetConcurrentThreads_m_Aborting)
qed


section \<open>Abort of all tasks\<close>

text \<open>
  What holds from the moment \<^verbatim>\<open>FreeThreads\<close> has raised every abort flag until
  \<^verbatim>\<open>AbortAllTasks\<close> returns: no worker can start a task, so no \<^verbatim>\<open>Execute()\<close> is
  added; the queue stays empty; and the records of deleted and aborted tasks
  only grow.
\<close>

lemma aborting_kept_Entry_step:
  assumes "quiet q \<and> executed q = E \<and> m_TaskQueue q = [] \<and> prefix D (deleted q) \<and> prefix A (aborted q)"
  shows "quiet (Entry_step tid q) \<and> executed (Entry_step tid q) = E \<and>
         m_TaskQueue (Entry_step tid q) = [] \<and> prefix D (deleted (Entry_step tid q)) \<and>
         prefix A (aborted (Entry_step tid q))"
proof -
  have "suffix (m_TaskQueue (Entry_step tid q)) []"
    using Entry_step_queue [of tid q] assms by simp
  then have "m_TaskQueue (Entry_step tid q) = []" by simp
  moreover have "prefix D (deleted (Entry_step tid q))"
    using assms Entry_step_logs(4) [of q tid] by (blast intro: prefix_order.trans)
  moreover have "prefix A (aborted (Entry_step tid q))"
    using assms Entry_step_logs(3) [of q tid] by (blast intro: prefix_order.trans)
  ultimately show ?thesis
    using assms by (simp add: Entry_step_quiet Entry_step_quiet_executed)
qed

lemma aborting_kept_Abort:
  assumes "quiet q \<and> executed q = E \<and> m_TaskQueue q = [] \<and> prefix D (deleted q) \<and> prefix A (aborted q)"
  shows "quiet (Abort tid q) \<and> executed (Abort tid q) = E \<and>
         m_TaskQueue (Abort tid q) = [] \<and> prefix D (deleted (Abort tid q)) \<and>
         prefix A (aborted (Abort tid q))"
  using assms by (simp add: Abort_quiet Abort_heap(2) prefix_prefix)

lemma aborting_kept_Kill:
  assumes "quiet q \<and> executed q = E \<and> m_TaskQueue q = [] \<and> prefix D (deleted q) \<and> prefix A (aborted q)"
  shows "quiet (wxThread_Kill tid q) \<and> executed (wxThread_Kill tid q) = E \<and>
         m_TaskQueue (wxThread_Kill tid q) = [] \<and> prefix D (deleted (wxThread_Kill tid q)) \<and>
         prefix A (aborted (wxThread_Kill tid q))"
  using assms by (simp add: Kill_quiet)

lemma aborting_kept_alloc:
  assumes "quiet q \<and> executed q = E \<and> m_TaskQueue q = [] \<and> prefix D (deleted q) \<and> prefix A (aborted q)"
  shows "quiet (alloc_thread q) \<and> executed (alloc_thread q) = E \<and>
         m_TaskQueue (alloc_thread q) = [] \<and> prefix D (deleted (alloc_thread q)) \<and>
         prefix A (aborted (alloc_thread q))"
  using assms alloc_thread_quiet [of q] by (simp add: alloc_thread_eq)

lemma fold_Abort_fields:
  "executed (fold Abort xs p) = executed p \<and> m_TaskQueue (fold Abort xs p) = m_TaskQueue p \<and>
   deleted (fold Abort xs p) = deleted p"
  by (rule fold_preserves
        [where I = "\<lambda>q. executed q = executed p \<and> m_TaskQueue q = m_TaskQueue p \<and>
                        deleted q = deleted p"])
     simp_all

lemma AbortAllTasks_effects:
  assumes "live_in_pool p"
  shows "executed (AbortAllTasks this p) = executed p \<and>
         m_TaskQueue (AbortAllTasks this p) = [] \<and>
         prefix (deleted p @ concat (map owned_task (m_TaskQueue p)))
                (deleted (AbortAllTasks this p)) \<and>
         prefix (aborted p @
                   concat (map (\<lambda>tid. case m_pTask (heap p ! tid) of Some t \<Rightarrow> [t] | None \<Rightarrow> [])
                             (m_Threads p)))
                (aborted (AbortAllTasks this p))"
proof -
  let ?D = "deleted p @ concat (map owned_task (m_TaskQueue p))"
  let ?A = "aborted p @
              concat (map (\<lambda>tid. case m_pTask (heap p ! tid) of Some t \<Rightarrow> [t] | None \<Rightarrow> [])
                        (m_Threads p))"
  let ?I = "\<lambda>q. quiet q \<and> executed q = executed p \<and> m_TaskQueue q = [] \<and>
                 prefix ?D (deleted q) \<and> prefix ?A (aborted q)"
  let ?p2 = "ClearTaskQueue (p\<lparr>m_Aborting := True\<rparr>)"
  have p2: "heap ?p2 = heap p" "m_Threads ?p2 = m_Threads p" "executed ?p2 = executed p"
    "m_TaskQueue ?p2 = []" "deleted ?p2 = ?D" "aborted ?p2 = aborted p"
    by (simp_all add: ClearTaskQueue_eq)
  have live: "live_in_pool ?p2" using assms p2 by (simp add: live_in_pool_def)
  have start: "?I (fold Abort (m_Threads ?p2) ?p2)"
    using fold_Abort_quiet [OF live] fold_Abort_fields [of "m_Threads ?p2" ?p2]
      fold_Abort_aborted [of "m_Threads ?p2" ?p2] p2
    by simp
  have 3: "?I (FreeThreads this ?p2)"
    by (rule FreeThreads_establishes [where I = ?I and J = ?I,
          OF aborting_kept_Entry_step aborting_kept_Abort aborting_kept_Kill _ _ _ start])
       (simp_all add: quiet_def)
  have 4: "?I (AllocThreads this (FreeThreads this ?p2))"
    by (rule AllocThreads_preserves [where I = ?I,
          OF aborting_kept_Entry_step aborting_kept_Abort aborting_kept_Kill _ _ _
             aborting_kept_alloc 3])
       (simp_all add: quiet_def)
  then show ?thesis by (simp add: AbortAllTasks_def Let_def)
qed

lemma AbortAllTasks_workers:
  "m_ConcurrentThreads (AbortAllTasks this p) = m_ConcurrentThreads p \<and>
   \<not> m_Aborting (AbortAllTasks this p) \<and>
   m_Threads (AbortAllTasks this p) =
     [length (heap p) ..< length (heap p) + nat (m_ConcurrentThreads p)] \<and>
   length (heap (AbortAllTasks this p)) = length (heap p) + nat (m_ConcurrentThreads p) \<and>
   (\<forall>t \<in> set (m_Threads (AbortAllTasks this p)). heap (AbortAllTasks this p) ! t = fresh_worker) \<and>
   (\<forall>t \<in> set (m_Threads p). Some t \<noteq> this \<longrightarrow> \<not> IsRunning (AbortAllTasks this p) t)"
proof -
  let ?p2 = "ClearTaskQueue (p\<lparr>m_Aborting := True\<rparr>)"
  let ?p3 = "FreeThreads this ?p2"
  let ?p4 = "AllocThreads this ?p3"
  have p2: "heap ?p2 = heap p" "m_Threads ?p2 = m_Threads p"
    "m_ConcurrentThreads ?p2 = m_ConcurrentThreads p"
    by (simp_all add: ClearTaskQueue_eq)
  from FreeThreads_fields [of this ?p2] p2 have p3:
    "m_ConcurrentThreads ?p3 = m_ConcurrentThreads p" "length (heap ?p3) = length (heap p)"
    by simp_all
  from AllocThreads_result [of this ?p3] p3 have p4:
    "m_ConcurrentThreads ?p4 = m_ConcurrentThreads p"
    "m_Threads ?p4 = [length (heap p) ..< length (heap p) + nat (m_ConcurrentThreads p)]"
    "heap ?p4 = heap (FreeThreads this ?p3) @ replicate (nat (m_ConcurrentThreads p)) fresh_worker"
    "length (heap (FreeThreads this ?p3)) = length (heap p)"
    by simp_all
  have eq: "AbortAllTasks this p = ?p4\<lparr>m_Aborting := False\<rparr>"
    by (simp add: AbortAllTasks_def Let_def)
  have fresh: "\<forall>t \<in> set (m_Threads ?p4). heap ?p4 ! t = fresh_worker"
    unfolding p4(2) p4(3) using p4(4) by (auto simp: nth_append)
  have old: "\<not> IsRunning ?p4 t" if "t \<in> set (m_Threads p)" "Some t \<noteq> this" for t
  proof -
    from that p2 have "\<not> IsRunning ?p3 t" by (simp add: FreeThreads_stops)
    then have "\<not> IsRunning (FreeThreads this ?p3) t" by (rule FreeThreads_not_running)
    then show ?thesis unfolding AllocThreads_def Let_def by (rule alloc_loop_not_running)
  qed
  have len: "length (heap ?p4) = length (heap p) + nat (m_ConcurrentThreads p)"
    unfolding p4(3) using p4(4) by simp
  show ?thesis unfolding eq using p4(1) p4(2) len fresh old by (simp add: IsRunning_def)
qed

lemma in_appended: "prefix (xs @ ys) zs \<Longrightarrow> t \<in> set ys \<Longrightarrow> t \<in> set (drop (length xs) zs)"
  by (auto simp: prefix_def)

text \<open>
  C5. \<^verbatim>\<open>AbortAllTasks\<close>, called on a pool that a run has reached, by any thread:
  \<^item> every task still in the queue with the auto-delete flag is deleted during
    the call, the queue is empty afterwards, and the call adds no \<^verbatim>\<open>Execute()\<close>
    to the record of executed tasks, so none of a pending task;
  \<^item> every task that a worker of the pool holds in \<^verbatim>\<open>m_pTask\<close> receives an
    \<^verbatim>\<open>Abort()\<close> during the call;
  \<^item> afterwards \<^verbatim>\<open>m_Threads\<close> holds newly allocated workers only, as many as
    \<^verbatim>\<open>m_ConcurrentThreads\<close> says (none when it is zero or negative), each of
    them fresh: no task, no abort flag, not started; no worker of the old set
    runs (the calling thread excepted), and the aborting flag is clear.
\<close>

theorem AbortAllTasks_resets_pool:
  "reachable p \<Longrightarrow>
     (\<forall>e \<in> set (m_TaskQueue p). \<forall>t. autoDelete e \<and> task e = Some t \<longrightarrow>
        t \<in> set (drop (length (deleted p)) (deleted (AbortAllTasks this p)))) \<and>
     m_TaskQueue (AbortAllTasks this p) = [] \<and>
     executed (AbortAllTasks this p) = executed p \<and>
     (\<forall>tid \<in> set (m_Threads p). \<forall>t. m_pTask (heap p ! tid) = Some t \<longrightarrow>
        t \<in> set (drop (length (aborted p)) (aborted (AbortAllTasks this p)))) \<and>
     m_Threads (AbortAllTasks this p) =
       [length (heap p) ..< length (heap p) + nat (m_ConcurrentThreads p)] \<and>
     (\<forall>t \<in> set (m_Threads (AbortAllTasks this p)). heap (AbortAllTasks this p) ! t = fresh_worker) \<and>
     (\<forall>t \<in> set (m_Threads p). Some t \<noteq> this \<longrightarrow> \<not> IsRunning (AbortAllTasks this p) t) \<and>
     m_ConcurrentThreads (AbortAllTasks this p) = m_ConcurrentThreads p \<and>
     \<not> m_Aborting (AbortAllTasks this p)"
proof -
  assume r: "reachable p"
  from AbortAllTasks_effects [OF reachable_live_in_pool [OF r], of this] have eff:
    "executed (AbortAllTasks this p) = executed p"
    "m_TaskQueue (AbortAllTasks this p) = []"
    "prefix (deleted p @ concat (map owned_task (m_TaskQueue p))) (deleted (AbortAllTasks this p))"
    "prefix (aborted p @
               concat (map (\<lambda>tid. case m_pTask (heap p ! tid) of Some t \<Rightarrow> [t] | None \<Rightarrow> [])
                         (m_Threads p)))
            (aborted (AbortAllTasks this p))"
    by simp_all
  have del: "\<forall>e \<in> set (m_TaskQueue p). \<forall>t. autoDelete e \<and> task e = Some t \<longrightarrow>
        t \<in> set (drop (length (deleted p)) (deleted (AbortAllTasks this p)))"
  proof (intro ballI allI impI)
    fix e t assume e: "e \<in> set (m_TaskQueue p)" and t: "autoDelete e \<and> task e = Some t"
    then have "t \<in> set (owned_task e)" by (simp add: owned_task_def)
    with e have "t \<in> set (concat (map owned_task (m_TaskQueue p)))" by auto
    with eff(3) show "t \<in> set (drop (length (deleted p)) (deleted (AbortAllTasks this p)))"
      by (rule in_appended)
  qed
  have ab: "\<forall>tid \<in> set (m_Threads p). \<forall>t. m_pTask (heap p ! tid) = Some t \<longrightarrow>
        t \<in> set (drop (length (aborted p)) (aborted (AbortAllTasks this p)))"
  proof (intro ballI allI impI)
    fix tid t assume tid: "tid \<in> set (m_Threads p)" and t: "m_pTask (heap p ! tid) = Some t"
    then have "t \<in> set (concat (map (\<lambda>tid. case m_pTask (heap p ! tid) of Some t \<Rightarrow> [t]
                 | None \<Rightarrow> []) (m_Threads p)))"
      by force
    with eff(4) show "t \<in> set (drop (length (aborted p)) (aborted (AbortAllTasks this p)))"
      by (rule in_appended)
  qed
  from del eff(2) eff(1) ab AbortAllTasks_workers [of this p] show ?thesis by blast
qed

theorem AbortAllTasks_resets_pool_witness:
  "reachable (run ([CallAddTask None (Some 1) False, CallAddTask None (Some 2) True] @
                   replicate 7 (WorkerMove 0))
                (cbThreadPool_new 4 [[], [0, 0, 0, 0, 0]] 7 42 1)) \<and>
   m_TaskQueue (run ([CallAddTask None (Some 1) False, CallAddTask None (Some 2) True] @
                   replicate 7 (WorkerMove 0))
                (cbThreadPool_new 4 [[], [0, 0, 0, 0, 0]] 7 42 1)) = [\<lparr>task = Some 2, autoDelete = True\<rparr>] \<and>
   m_Threads (run ([CallAddTask None (Some 1) False, CallAddTask None (Some 2) True] @
                   replicate 7 (WorkerMove 0))
                (cbThreadPool_new 4 [[], [0, 0, 0, 0, 0]] 7 42 1)) = [0] \<and>
   m_pTask (heap (run ([CallAddTask None (Some 1) False, CallAddTask None (Some 2) True] @
                   replicate 7 (WorkerMove 0))
                (cbThreadPool_new 4 [[], [0, 0, 0, 0, 0]] 7 42 1)) ! 0) = Some 1 \<and>
   deleted (AbortAllTasks None
      (run ([CallAddTask None (Some 1) False, CallAddTask None (Some 2) True] @
                   replicate 7 (WorkerMove 0))
                (cbThreadPool_new 4 [[], [0, 0, 0, 0, 0]] 7 42 1))) = [2] \<and>
   aborted (AbortAllTasks None
      (run ([CallAddTask None (Some 1) False, CallAddTask None (Some 2) True] @
                   replicate 7 (WorkerMove 0))
                (cbThreadPool_new 4 [[], [0, 0, 0, 0, 0]] 7 42 1))) = [1] \<and>
   executed (AbortAllTasks None
      (run ([CallAddTask None (Some 1) False, CallAddTask None (Some 2) True] @
                   replicate 7 (WorkerMove 0))
                (cbThreadPool_new 4 [[], [0, 0, 0, 0, 0]] 7 42 1))) = [1] \<and>
   m_Threads (AbortAllTasks None
      (run ([CallAddTask None (Some 1) False, CallAddTask None (Some 2) True] @
                   replicate 7 (WorkerMove 0))
                (cbThreadPool_new 4 [[], [0, 0, 0, 0, 0]] 7 42 1))) = [1] \<and>
   heap (AbortAllTasks None
      (run ([CallAddTask None (Some 1) False, CallAddTask None (Some 2) True] @
                   replicate 7 (WorkerMove 0))
                (cbThreadPool_new 4 [[], [0, 0, 0, 0, 0]] 7 42 1))) ! 1 = fresh_worker \<and>
   \<not> IsRunning (AbortAllTasks None
      (run ([CallAddTask None (Some 1) False, CallAddTask None (Some 2) True] @
                   replicate 7 (WorkerMove 0))
                (cbThreadPool_new 4 [[], [0, 0, 0, 0, 0]] 7 42 1))) 0 \<and>
   \<not> m_Aborting (AbortAllTasks None
      (run ([CallAddTask None (Some 1) False, CallAddTask None (Some 2) True] @
                   replicate 7 (WorkerMove 0))
                (cbThreadPool_new 4 [[], [0, 0, 0, 0, 0]] 7 42 1)))"
proof -
  let ?p = "run ([CallAddTask None (Some 1) False, CallAddTask None (Some 2) True] @
                   replicate 7 (WorkerMove 0))
                (cbThreadPool_new 4 [[], [0, 0, 0, 0, 0]] 7 42 1)"
  have r: "reachable ?p" by (rule reachable_run [OF reachable_new])
  have a: "m_TaskQueue ?p = [\<lparr>task = Some 2, autoDelete = True\<rparr>]" by code_simp
  have b: "m_Threads ?p = [0]" by code_simp
  have c: "m_pTask (heap ?p ! 0) = Some 1" by code_simp
  have d: "deleted (AbortAllTasks None ?p) = [2]" by code_simp
  have e: "aborted (AbortAllTasks None ?p) = [1]" by code_simp
  have f: "executed (AbortAllTasks None ?p) = [1]" by code_simp
  have g: "m_Threads (AbortAllTasks None ?p) = [1]" by code_simp
  have g': "1 \<in> set (m_Threads (AbortAllTasks None ?p))" "0 \<in> set (m_Threads ?p)"
    unfolding g b by simp_all
  have h: "Some 0 \<noteq> (None :: nat option)" by simp
  from AbortAllTasks_resets_pool [OF r, of None] have
    "\<forall>t \<in> set (m_Threads (AbortAllTasks None ?p)). heap (AbortAllTasks None ?p) ! t = fresh_worker"
    "\<forall>t \<in> set (m_Threads ?p). Some t \<noteq> None \<longrightarrow> \<not> IsRunning (AbortAllTasks None ?p) t"
    "\<not> m_Aborting (AbortAllTasks None ?p)"
    by blast+
  with g' h have i: "heap (AbortAllTasks None ?p) ! 1 = fresh_worker"
    "\<not> IsRunning (AbortAllTasks None ?p) 0" "\<not> m_Aborting (AbortAllTasks None ?p)"
    by blast+
  from r a b c d e f g i show ?thesis by blast
qed


section \<open>A pool without workers\<close>

lemma SetConcurrentThreads_AllocThreads:
  "SetConcurrentThreads cpu this n p =
     AllocThreads this
       (p\<lparr>m_ConcurrentThreads := (if n = - 1 then (if cpu = - 1 then 1 else cpu) else n)\<rparr>)"
  by (simp add: SetConcurrentThreads_def Let_def)

lemma SetConcurrentThreads_result:
  "m_ConcurrentThreads (SetConcurrentThreads cpu this n p) =
     (if n = - 1 then (if cpu = - 1 then 1 else cpu) else n) \<and>
   m_Threads (SetConcurrentThreads cpu this n p) =
     [length (heap p) ..<
      length (heap p) + nat (if n = - 1 then (if cpu = - 1 then 1 else cpu) else n)]"
proof -
  let ?M = "if n = - 1 then (if cpu = - 1 then 1 else cpu) else n"
  from AllocThreads_result [of this "p\<lparr>m_ConcurrentThreads := ?M\<rparr>"] have
    "m_ConcurrentThreads (AllocThreads this (p\<lparr>m_ConcurrentThreads := ?M\<rparr>)) = ?M"
    "m_Threads (AllocThreads this (p\<lparr>m_ConcurrentThreads := ?M\<rparr>)) =
       [length (heap p) ..< length (heap p) + nat ?M]"
    by simp_all
  then show ?thesis unfolding SetConcurrentThreads_AllocThreads by blast
qed

text \<open>
  A pool whose array of workers is empty, whose worker count is below one and in
  which no worker can start a task stays so under every action but a
  reconfiguration, and no \<^verbatim>\<open>Execute()\<close> is ever added.
\<close>

lemma perform_no_workers:
  assumes I: "quiet p \<and> m_Threads p = [] \<and> m_ConcurrentThreads p < 1 \<and> executed p = E"
    and a: "\<not> is_reconfiguration a"
  shows "quiet (perform a p) \<and> m_Threads (perform a p) = [] \<and>
         m_ConcurrentThreads (perform a p) < 1 \<and> executed (perform a p) = E"
proof (cases a)
  case (CallAddTask this tp d)
  have "snd (AddTask this tp d p) =
          (if m_Aborting p then (if d then delete_task tp p else p)
           else p\<lparr>m_TaskQueue := m_TaskQueue p @ [\<lparr>task = tp, autoDelete = d\<rparr>], m_Done := False\<rparr>)"
    using I by (simp add: AddTask_def Let_def RunThreads_no_threads)
  with CallAddTask I show ?thesis
    by (simp add: quiet_def delete_task_def split: option.splits)
next
  case CallBatchBegin
  with I show ?thesis by (simp add: BatchBegin_def quiet_def)
next
  case (CallBatchEnd this)
  with I show ?thesis by (simp add: BatchEnd_def RunThreads_no_threads quiet_def)
next
  case (CallAbortAllTasks this)
  from I have live: "live_in_pool p" by (simp add: quiet_live_in_pool)
  from AbortAllTasks_effects [OF live, of this] AbortAllTasks_quiet [OF live, of this]
    AbortAllTasks_workers [of this p] I CallAbortAllTasks
  show ?thesis by simp
next
  case (CallSetConcurrentThreads cpu this n)
  with a show ?thesis by simp
next
  case (WorkerMove tid)
  with I show ?thesis by (simp add: Entry_step_quiet Entry_step_quiet_executed)
qed

lemma run_no_workers:
  "quiet p \<and> m_Threads p = [] \<and> m_ConcurrentThreads p < 1 \<and> executed p = E \<Longrightarrow>
   list_all (\<lambda>a. \<not> is_reconfiguration a) acts \<Longrightarrow>
   quiet (run acts p) \<and> m_Threads (run acts p) = [] \<and>
   m_ConcurrentThreads (run acts p) < 1 \<and> executed (run acts p) = E"
proof (induction acts arbitrary: p)
  case Nil
  then show ?case by (simp add: run_def)
next
  case (Cons a acts)
  from Cons.prems(2) have a: "\<not> is_reconfiguration a"
    and rest: "list_all (\<lambda>a. \<not> is_reconfiguration a) acts" by simp_all
  from Cons.IH [OF perform_no_workers [OF Cons.prems(1) a] rest]
  show ?case by (simp add: run_def)
qed

text \<open>
  C10. Only the argument \<open>-1\<close> is resolved; any other argument of
  \<^verbatim>\<open>SetConcurrentThreads\<close> is stored in \<^verbatim>\<open>m_ConcurrentThreads\<close> as it is. When that
  argument is below one, the pool (one a run has reached) has no workers
  afterwards; \<^verbatim>\<open>AddTask\<close> still accepts a task and appends it to the queue, and in
  no continuation of the run without another reconfiguration is a worker
  allocated or \<^verbatim>\<open>Execute()\<close> called on any task. The same holds of a pool
  constructed with such an argument, which never executes anything.
\<close>

theorem explicit_worker_count_taken_verbatim:
  "reachable p \<Longrightarrow> n \<noteq> - 1 \<Longrightarrow>
     m_ConcurrentThreads (SetConcurrentThreads cpu this n p) = n \<and>
     (n < 1 \<longrightarrow>
        m_Threads (SetConcurrentThreads cpu this n p) = [] \<and>
        fst (AddTask this' tp del (SetConcurrentThreads cpu this n p)) = True \<and>
        m_TaskQueue (snd (AddTask this' tp del (SetConcurrentThreads cpu this n p))) =
          m_TaskQueue (SetConcurrentThreads cpu this n p) @ [\<lparr>task = tp, autoDelete = del\<rparr>] \<and>
        (list_all (\<lambda>a. \<not> is_reconfiguration a) acts \<longrightarrow>
           m_Threads (run acts (SetConcurrentThreads cpu this n p)) = [] \<and>
           executed (run acts (SetConcurrentThreads cpu this n p)) =
             executed (SetConcurrentThreads cpu this n p) \<and>
           m_Threads (run acts (cbThreadPool_new cpu sch owner ident n)) = [] \<and>
           executed (run acts (cbThreadPool_new cpu sch owner ident n)) = []))"
proof -
  assume r: "reachable p" and n: "n \<noteq> - 1"
  let ?p' = "SetConcurrentThreads cpu this n p"
  from SetConcurrentThreads_result [of cpu this n p] n have res:
    "m_ConcurrentThreads ?p' = n" "m_Threads ?p' = [length (heap p) ..< length (heap p) + nat n]"
    by simp_all
  have q: "quiet ?p'" by (rule SetConcurrentThreads_quiet [OF reachable_live_in_pool [OF r]])
  have na: "\<not> m_Aborting ?p'"
    using reachable_not_aborting [OF r] by (simp add: SetConcurrentThreads_m_Aborting)
  have small: "n < 1 \<longrightarrow>
        m_Threads ?p' = [] \<and>
        fst (AddTask this' tp del ?p') = True \<and>
        m_TaskQueue (snd (AddTask this' tp del ?p')) =
          m_TaskQueue ?p' @ [\<lparr>task = tp, autoDelete = del\<rparr>] \<and>
        (list_all (\<lambda>a. \<not> is_reconfiguration a) acts \<longrightarrow>
           m_Threads (run acts ?p') = [] \<and>
           executed (run acts ?p') = executed ?p' \<and>
           m_Threads (run acts (cbThreadPool_new cpu sch owner ident n)) = [] \<and>
           executed (run acts (cbThreadPool_new cpu sch owner ident n)) = [])"
  proof
    assume lt: "n < 1"
    with res have nt: "m_Threads ?p' = []" by simp
    have acc: "fst (AddTask this' tp del ?p') = True" using na by (simp add: AddTask_def Let_def)
    have enq: "m_TaskQueue (snd (AddTask this' tp del ?p')) =
                 m_TaskQueue ?p' @ [\<lparr>task = tp, autoDelete = del\<rparr>]"
      using na by (simp add: AddTask_queue)
    have I: "quiet ?p' \<and> m_Threads ?p' = [] \<and> m_ConcurrentThreads ?p' < 1 \<and>
             executed ?p' = executed ?p'"
      using q nt res(1) lt by simp
    let ?c = "cbThreadPool_new cpu sch owner ident n"
    have Ic: "quiet ?c \<and> m_Threads ?c = [] \<and> m_ConcurrentThreads ?c < 1 \<and> executed ?c = []"
      using n lt by (simp add: cbThreadPool_new_eq quiet_def)
    have runs: "list_all (\<lambda>a. \<not> is_reconfiguration a) acts \<longrightarrow>
           m_Threads (run acts ?p') = [] \<and>
           executed (run acts ?p') = executed ?p' \<and>
           m_Threads (run acts ?c) = [] \<and> executed (run acts ?c) = []"
      using run_no_workers [OF I] run_no_workers [OF Ic] by blast
    from nt acc enq runs show
      "m_Threads ?p' = [] \<and>
        fst (AddTask this' tp del ?p') = True \<and>
        m_TaskQueue (snd (AddTask this' tp del ?p')) =
          m_TaskQueue ?p' @ [\<lparr>task = tp, autoDelete = del\<rparr>] \<and>
        (list_all (\<lambda>a. \<not> is_reconfiguration a) acts \<longrightarrow>
           m_Threads (run acts ?p') = [] \<and>
           executed (run acts ?p') = executed ?p' \<and>
           m_Threads (run acts ?c) = [] \<and> executed (run acts ?c) = [])"
      by blast
  qed
  from res(1) small show ?thesis by blast
qed

theorem explicit_worker_count_taken_verbatim_witness:
  "reachable (cbThreadPool_new 4 [] 7 42 2) \<and>
   m_ConcurrentThreads (SetConcurrentThreads 4 None 0 (cbThreadPool_new 4 [] 7 42 2)) = 0 \<and>
   m_ConcurrentThreads (SetConcurrentThreads 4 None (- 3) (cbThreadPool_new 4 [] 7 42 2)) = - 3 \<and>
   m_Threads (SetConcurrentThreads 4 None 0 (cbThreadPool_new 4 [] 7 42 2)) = [] \<and>
   m_Threads (SetConcurrentThreads 4 None (- 3) (cbThreadPool_new 4 [] 7 42 2)) = [] \<and>
   fst (AddTask None (Some 1) False (SetConcurrentThreads 4 None 0 (cbThreadPool_new 4 [] 7 42 2))) \<and>
   list_all (\<lambda>a. \<not> is_reconfiguration a)
     [CallAddTask None (Some 1) False, WorkerMove 0, WorkerMove 1, WorkerMove 0] \<and>
   m_TaskQueue (run [CallAddTask None (Some 1) False, WorkerMove 0, WorkerMove 1, WorkerMove 0]
      (SetConcurrentThreads 4 None 0 (cbThreadPool_new 4 [] 7 42 2))) =
     [\<lparr>task = Some 1, autoDelete = False\<rparr>] \<and>
   executed (run [CallAddTask None (Some 1) False, WorkerMove 0, WorkerMove 1, WorkerMove 0]
      (SetConcurrentThreads 4 None 0 (cbThreadPool_new 4 [] 7 42 2))) = []"
proof -
  let ?p = "cbThreadPool_new 4 [] 7 42 2"
  let ?acts = "[CallAddTask None (Some 1) False, WorkerMove 0, WorkerMove 1, WorkerMove 0]"
  have r: "reachable ?p" by (rule reachable_new)
  have n0: "(0::int) \<noteq> - 1" and n3: "(- 3::int) \<noteq> - 1" and lt: "(0::int) < 1" "(- 3::int) < 1"
    by simp_all
  have l: "list_all (\<lambda>a. \<not> is_reconfiguration a) ?acts" by simp
  have q: "m_TaskQueue (run ?acts (SetConcurrentThreads 4 None 0 ?p)) =
             [\<lparr>task = Some 1, autoDelete = False\<rparr>]" by code_simp
  have e0: "executed (SetConcurrentThreads 4 None 0 ?p) = []" by code_simp
  from explicit_worker_count_taken_verbatim [OF r n0, where cpu = 4 and this = None
      and this' = None and tp = "Some 1" and del = False and acts = ?acts] lt(1) l e0
  have a: "m_ConcurrentThreads (SetConcurrentThreads 4 None 0 ?p) = 0"
    "m_Threads (SetConcurrentThreads 4 None 0 ?p) = []"
    "fst (AddTask None (Some 1) False (SetConcurrentThreads 4 None 0 ?p))"
    "executed (run ?acts (SetConcurrentThreads 4 None 0 ?p)) = []"
    by simp_all
  from explicit_worker_count_taken_verbatim [OF r n3, where cpu = 4 and this = None] lt(2)
  have b: "m_ConcurrentThreads (SetConcurrentThreads 4 None (- 3) ?p) = - 3"
    "m_Threads (SetConcurrentThreads 4 None (- 3) ?p) = []"
    by simp_all
  from r a b l q show ?thesis by blast
qed


end
